theory Spec2Isabelle
  imports Main "HOL-Library.Sublist" "HOL-Library.Log_Nat"
begin

section \<open>JavaScript strings\<close>

text \<open>
  The harness \<^verbatim>\<open>comprehensive-test.js\<close> works on JavaScript strings: the response body,
  the values of the checks, the patterns it hands to \<^verbatim>\<open>new RegExp\<close>. A string is
  modelled as a \<^typ>\<open>string\<close>, one \<^typ>\<open>char\<close> per code unit, so the strings covered are
  those whose code units lie below 256.
\<close>

text \<open>
  \<^verbatim>\<open>String.prototype.includes\<close>: a case-sensitive search for a contiguous occurrence;
  the empty string occurs in every string.
\<close>

fun str_includes :: "string \<Rightarrow> string \<Rightarrow> bool" where
  "str_includes [] v = (v = [])"
| "str_includes (c # s) v = (prefix v (c # s) \<or> str_includes s v)"

text \<open>
  Case folding of a regular expression with the \<^verbatim>\<open>i\<close> flag and without the \<^verbatim>\<open>u\<close> flag
  (ECMAScript, Canonicalize): a code unit is replaced by the code unit of its upper-case
  form when that form is a single code unit, except that a code unit from 128 on is kept
  when its upper-case form lies below 128. Below 256 the letters with such a form are
  a-z, the Latin-1 letters 224-254 without the division sign 247 (each 32 above its
  upper-case form), the micro sign 181 (upper case 924) and y with diaeresis 255
  (upper case 376); the sharp s 223 has a two-letter upper-case form and is kept.
\<close>

definition Canonicalize :: "char \<Rightarrow> nat" where
  "Canonicalize c =
     (let n = of_char c
      in if (97 \<le> n \<and> n \<le> 122) \<or> (224 \<le> n \<and> n \<le> 254 \<and> n \<noteq> 247) then n - 32
         else if n = 181 then 924
         else if n = 255 then 376
         else n)"

text \<open>Two strings that differ in case only.\<close>

definition ci_eq :: "string \<Rightarrow> string \<Rightarrow> bool" where
  "ci_eq x y = (map Canonicalize x = map Canonicalize y)"

section \<open>Regular expressions\<close>

text \<open>
  The harness builds every regular expression with \<^verbatim>\<open>new RegExp(source, 'i')\<close>, and the
  source of three of them contains the value of a check, spliced in unescaped. The
  syntax the four templates of the harness use is modelled here in full: pattern
  characters, character classes \<^verbatim>\<open>[...]\<close> and \<^verbatim>\<open>[^...]\<close> of plain members, the greedy
  star on a character or a class, and capture groups. A source that uses anything
  else goes to the host's regular-expression engine, a parameter of the model.
\<close>

datatype atom = Chr char | Cls bool "char list"

datatype item = One atom | Many atom | Open | Close

datatype 'a parsed = Parsed 'a | Invalid | Unmodelled

datatype mode = Outside | Opened | Inside bool "char list"

text \<open>
  The syntax characters that the modelled fragment does not give a meaning to:
  \<^verbatim>\<open>^ $ \ . + ? ] { } |\<close> outside a class. Inside a class the backslash (an escape) and
  the hyphen (a range) are left to the host as well.
\<close>

definition beyond_outside :: "char \<Rightarrow> bool" where
  "beyond_outside c = (c \<in> set [CHR ''^'', CHR ''$'', CHR 0x5C, CHR ''.'', CHR ''+'', CHR ''?'',
      CHR '']'', CHR ''{'', CHR ''}'', CHR ''|''])"

definition beyond_inside :: "char \<Rightarrow> bool" where
  "beyond_inside c = (c = CHR 0x5C \<or> c = CHR ''-'')"

text \<open>
  The parser reads the source from left to right. \<open>acc\<close> holds the items read so far,
  last first; \<open>depth\<close> counts the groups that are open. The source is \<open>Invalid\<close>
  (\<^verbatim>\<open>new RegExp\<close> throws a SyntaxError) when a \<^verbatim>\<open>)\<close> closes no group, when a star has
  nothing to repeat, and when the source ends inside a class or a group. A star on a
  group is left to the host.
\<close>

fun parse_from :: "mode \<Rightarrow> item list \<Rightarrow> nat \<Rightarrow> string \<Rightarrow> item list parsed" where
  "parse_from Outside acc depth [] = (if depth = 0 then Parsed (rev acc) else Invalid)"
| "parse_from Opened acc depth [] = Invalid"
| "parse_from (Inside neg ms) acc depth [] = Invalid"
| "parse_from Outside acc depth (c # cs) =
     (if c = CHR ''['' then parse_from Opened acc depth cs
      else if c = CHR ''('' then parse_from Outside (Open # acc) (Suc depth) cs
      else if c = CHR '')'' then
        (if depth = 0 then Invalid else parse_from Outside (Close # acc) (depth - 1) cs)
      else if c = CHR ''*'' then
        (case acc of
           One a # acc' \<Rightarrow> parse_from Outside (Many a # acc') depth cs
         | Close # acc' \<Rightarrow> Unmodelled
         | _ \<Rightarrow> Invalid)
      else if beyond_outside c then Unmodelled
      else parse_from Outside (One (Chr c) # acc) depth cs)"
| "parse_from Opened acc depth (c # cs) =
     (if c = CHR ''^'' then parse_from (Inside True []) acc depth cs
      else if c = CHR '']'' then parse_from Outside (One (Cls False []) # acc) depth cs
      else if beyond_inside c then Unmodelled
      else parse_from (Inside False [c]) acc depth cs)"
| "parse_from (Inside neg ms) acc depth (c # cs) =
     (if c = CHR '']'' then parse_from Outside (One (Cls neg (rev ms)) # acc) depth cs
      else if beyond_inside c then Unmodelled
      else parse_from (Inside neg (c # ms)) acc depth cs)"

definition parse_pattern :: "string \<Rightarrow> item list parsed" where
  "parse_pattern src = parse_from Outside [] 0 src"

text \<open>
  Matching with the \<^verbatim>\<open>i\<close> flag. A pattern character matches the characters with the
  same canonical form; a class matches a character when one of its members has the same
  canonical form, and a negated class when none has.
\<close>

fun accepts :: "atom \<Rightarrow> char \<Rightarrow> bool" where
  "accepts (Chr x) c = (Canonicalize x = Canonicalize c)"
| "accepts (Cls neg ms) c = ((Canonicalize c \<in> set (map Canonicalize ms)) \<noteq> neg)"

text \<open>
  \<open>run p s\<close> matches the items \<open>p\<close> at the start of \<open>s\<close>, backtracking as the engine
  does: a star first takes as many characters as it can and gives them back one by one
  while the rest of the pattern fails. The result is the text each item consumed.
\<close>

fun run :: "item list \<Rightarrow> string \<Rightarrow> string list option" where
  "run [] s = Some []"
| "run (One a # p) [] = None"
| "run (One a # p) (c # s) =
     (if accepts a c then map_option ((#) [c]) (run p s) else None)"
| "run (Many a # p) [] = map_option ((#) []) (run p [])"
| "run (Many a # p) (c # s) =
     (if accepts a c then
        (case run (Many a # p) s of
           Some (t # ts) \<Rightarrow> Some ((c # t) # ts)
         | _ \<Rightarrow> map_option ((#) []) (run p (c # s)))
      else map_option ((#) []) (run p (c # s)))"
| "run (Open # p) s = map_option ((#) []) (run p s)"
| "run (Close # p) s = map_option ((#) []) (run p s)"

text \<open>
  The captures: the text of a group is what the items between its \<^verbatim>\<open>(\<close> and the matching
  \<^verbatim>\<open>)\<close> consumed. Groups are numbered by their opening parenthesis.
\<close>

fun upto_close :: "nat \<Rightarrow> (item \<times> string) list \<Rightarrow> string" where
  "upto_close d [] = []"
| "upto_close d ((Open, t) # r) = upto_close (Suc d) r"
| "upto_close d ((Close, t) # r) = (if d = 0 then [] else upto_close (d - 1) r)"
| "upto_close d ((One a, t) # r) = t @ upto_close d r"
| "upto_close d ((Many a, t) # r) = t @ upto_close d r"

fun groups :: "(item \<times> string) list \<Rightarrow> string list" where
  "groups [] = []"
| "groups ((Open, t) # r) = upto_close 0 r # groups r"
| "groups ((Close, t) # r) = groups r"
| "groups ((One a, t) # r) = groups r"
| "groups ((Many a, t) # r) = groups r"

text \<open>
  \<^verbatim>\<open>RegExp.prototype.exec\<close> of a regular expression without the \<^verbatim>\<open>g\<close> flag: the first
  position of the subject where the pattern matches wins; the result is the match array
  (the whole match, then the captures), or \<open>None\<close> for \<^verbatim>\<open>null\<close>.
\<close>

fun exec :: "item list \<Rightarrow> string \<Rightarrow> string list option" where
  "exec p [] =
     (case run p [] of
        Some ts \<Rightarrow> Some (concat ts # groups (zip p ts))
      | None \<Rightarrow> None)"
| "exec p (c # s) =
     (case run p (c # s) of
        Some ts \<Rightarrow> Some (concat ts # groups (zip p ts))
      | None \<Rightarrow> exec p s)"

text \<open>
  The errors the harness can see: an \<^verbatim>\<open>Error\<close> with its message (a failed request, the
  timeout), the SyntaxError of \<^verbatim>\<open>new RegExp\<close> with the source it refused, and a
  TypeError.
\<close>

datatype js_error = Error string | SyntaxError string | TypeError

text \<open>
  A regular expression object is modelled by its \<^verbatim>\<open>exec\<close>. \<open>engine\<close> is the type of
  the host's \<^verbatim>\<open>new RegExp(source, 'i')\<close>; the model calls it only for a source outside
  the fragment above, and every theorem holds for every engine.
\<close>

type_synonym regexp = "string \<Rightarrow> string list option"

type_synonym engine = "string \<Rightarrow> js_error + regexp"

definition RegExp_i :: "engine \<Rightarrow> string \<Rightarrow> js_error + regexp" where
  "RegExp_i host src =
     (case parse_pattern src of
        Parsed p \<Rightarrow> Inr (exec p)
      | Invalid \<Rightarrow> Inl (SyntaxError src)
      | Unmodelled \<Rightarrow> host src)"

text \<open>\<^verbatim>\<open>regex.test(s)\<close> and \<^verbatim>\<open>s.match(regex)\<close>, for a regular expression without the \<^verbatim>\<open>g\<close> flag.\<close>

definition test :: "regexp \<Rightarrow> string \<Rightarrow> bool" where
  "test rx s = (rx s \<noteq> None)"

definition match :: "string \<Rightarrow> regexp \<Rightarrow> string list option" where
  "match s rx = rx s"

section \<open>JSON.parse\<close>

text \<open>
  \<^verbatim>\<open>JSON.parse\<close> follows the JSON grammar: white space is tab, line feed, carriage
  return and space; a string holds no code unit below 32 and its escapes are
  \<^verbatim>\<open>\" \\ \/ \b \f \n \r \t\<close> and \<^verbatim>\<open>\u\<close> with four hexadecimal digits; a number is an
  optional minus, an integer part without a leading zero, an optional fraction and an
  optional exponent. A parsed string is a list of code units (an escape can name any
  code unit up to 65535). A number keeps its text: the harness never reads its value.
\<close>

datatype json =
  JNull | JBool bool | JNumber string | JString "nat list"
  | JArray "json list" | JObject "(nat list \<times> json) list"

datatype token =
  LBrace | RBrace | LBracket | RBracket | Colon | Comma
  | TString "nat list" | TNumber string | TTrue | TFalse | TNull

definition json_ws :: "char \<Rightarrow> bool" where
  "json_ws c = (c \<in> set [CHR 0x09, CHR 0x0A, CHR 0x0D, CHR '' ''])"

definition digit :: "char \<Rightarrow> bool" where
  "digit c = (c \<in> set ''0123456789'')"

definition hex_value :: "char \<Rightarrow> nat option" where
  "hex_value c =
     (let n = of_char c
      in if 48 \<le> n \<and> n \<le> 57 then Some (n - 48)
         else if 65 \<le> n \<and> n \<le> 70 then Some (n - 55)
         else if 97 \<le> n \<and> n \<le> 102 then Some (n - 87)
         else None)"

definition hex4 :: "char \<Rightarrow> char \<Rightarrow> char \<Rightarrow> char \<Rightarrow> nat option" where
  "hex4 a b c d =
     (case (hex_value a, hex_value b, hex_value c, hex_value d) of
        (Some h3, Some h2, Some h1, Some h0) \<Rightarrow> Some (((h3 * 16 + h2) * 16 + h1) * 16 + h0)
      | _ \<Rightarrow> None)"

definition unescape :: "char \<Rightarrow> nat option" where
  "unescape e =
     (if e = CHR 0x22 then Some 34 else if e = CHR 0x5C then Some 92
      else if e = CHR ''/'' then Some 47 else if e = CHR ''b'' then Some 8
      else if e = CHR ''f'' then Some 12 else if e = CHR ''n'' then Some 10
      else if e = CHR ''r'' then Some 13 else if e = CHR ''t'' then Some 9
      else None)"

definition push :: "'a \<Rightarrow> ('a list \<times> string) option \<Rightarrow> ('a list \<times> string) option" where
  "push n r = map_option (\<lambda>(ks, rest). (n # ks, rest)) r"

text \<open>The code unit an escape stands for, read after the backslash, and the input left.\<close>

definition lex_escape :: "string \<Rightarrow> (nat \<times> string) option" where
  "lex_escape s =
     (case s of
        [] \<Rightarrow> None
      | e # r \<Rightarrow>
          if e = CHR ''u'' then
            (case r of
               h3 # h2 # h1 # h0 # r' \<Rightarrow>
                 (case hex4 h3 h2 h1 h0 of None \<Rightarrow> None | Some n \<Rightarrow> Some (n, r'))
             | _ \<Rightarrow> None)
          else (case unescape e of None \<Rightarrow> None | Some n \<Rightarrow> Some (n, r)))"

lemma lex_escape_shorter: "lex_escape s = Some (n, r) \<Longrightarrow> length r < length s"
  by (auto simp: lex_escape_def split: list.splits if_splits option.splits)

text \<open>The code units of a string, read after its opening quote, and the input left.\<close>

function lex_string :: "string \<Rightarrow> (nat list \<times> string) option" where
  "lex_string [] = None"
| "lex_string (c # cs) =
     (if c = CHR 0x22 then Some ([], cs)
      else if c = CHR 0x5C then
        (case lex_escape cs of
           None \<Rightarrow> None
         | Some (n, r) \<Rightarrow> push n (lex_string r))
      else if (of_char c :: nat) < 32 then None
      else push (of_char c) (lex_string cs))"
  by pat_completeness auto
termination
  by (relation "measure length") (auto dest: lex_escape_shorter)

text \<open>At least one digit, and the input left.\<close>

definition digits1 :: "string \<Rightarrow> (string \<times> string) option" where
  "digits1 s =
     (if takeWhile digit s = [] then None else Some (takeWhile digit s, dropWhile digit s))"

definition lex_int :: "string \<Rightarrow> (string \<times> string) option" where
  "lex_int s =
     (case s of
        [] \<Rightarrow> None
      | c # cs \<Rightarrow> if c = CHR ''0'' then Some ([c], cs) else digits1 s)"

definition lex_frac :: "string \<Rightarrow> (string \<times> string) option" where
  "lex_frac s =
     (case s of
        c # cs \<Rightarrow>
          if c = CHR ''.'' then
            (case digits1 cs of None \<Rightarrow> None | Some (ds, r) \<Rightarrow> Some (c # ds, r))
          else Some ([], s)
      | [] \<Rightarrow> Some ([], s))"

definition lex_exp :: "string \<Rightarrow> (string \<times> string) option" where
  "lex_exp s =
     (case s of
        c # cs \<Rightarrow>
          if c = CHR ''e'' \<or> c = CHR ''E'' then
            (case cs of
               g # cs' \<Rightarrow>
                 if g = CHR ''+'' \<or> g = CHR ''-'' then
                   (case digits1 cs' of None \<Rightarrow> None | Some (ds, r) \<Rightarrow> Some (c # g # ds, r))
                 else (case digits1 cs of None \<Rightarrow> None | Some (ds, r) \<Rightarrow> Some (c # ds, r))
             | [] \<Rightarrow> None)
          else Some ([], s)
      | [] \<Rightarrow> Some ([], s))"

definition lex_unsigned :: "string \<Rightarrow> (string \<times> string) option" where
  "lex_unsigned s =
     (case lex_int s of
        None \<Rightarrow> None
      | Some (i, r1) \<Rightarrow>
          (case lex_frac r1 of
             None \<Rightarrow> None
           | Some (f, r2) \<Rightarrow>
               (case lex_exp r2 of
                  None \<Rightarrow> None
                | Some (e, r3) \<Rightarrow> Some (i @ f @ e, r3))))"

definition lex_number :: "string \<Rightarrow> (string \<times> string) option" where
  "lex_number s =
     (case s of
        c # cs \<Rightarrow>
          if c = CHR ''-'' then
            (case lex_unsigned cs of None \<Rightarrow> None | Some (n, r) \<Rightarrow> Some (c # n, r))
          else lex_unsigned s
      | [] \<Rightarrow> None)"


lemma push_Some: "push n x = Some (ks, r) \<longleftrightarrow> (\<exists>ks'. x = Some (ks', r) \<and> ks = n # ks')"
  by (cases x) (auto simp: push_def)

lemma lex_string_shorter: "lex_string s = Some (ks, r) \<Longrightarrow> length r \<le> length s"
proof (induction s arbitrary: ks r rule: lex_string.induct)
  case 1
  then show ?case by simp
next
  case (2 c cs)
  then show ?case
    by (fastforce simp: push_Some split: if_splits option.splits dest: lex_escape_shorter)
qed

lemma digits1_shorter: "digits1 s = Some (ds, r) \<Longrightarrow> length r < length s"
proof -
  assume a: "digits1 s = Some (ds, r)"
  then have "takeWhile digit s \<noteq> []" and r: "r = dropWhile digit s"
    by (auto simp: digits1_def split: if_splits)
  then have "length (takeWhile digit s) > 0" by simp
  moreover have "length s = length (takeWhile digit s) + length (dropWhile digit s)"
    by (metis length_append takeWhile_dropWhile_id)
  ultimately show ?thesis using r by simp
qed

lemma lex_int_shorter: "lex_int s = Some (ds, r) \<Longrightarrow> length r < length s"
  by (auto simp: lex_int_def split: list.splits if_splits dest: digits1_shorter)

lemma lex_frac_shorter: "lex_frac s = Some (ds, r) \<Longrightarrow> length r \<le> length s"
  by (auto simp: lex_frac_def split: list.splits if_splits option.splits dest!: digits1_shorter)

lemma lex_exp_shorter: "lex_exp s = Some (ds, r) \<Longrightarrow> length r \<le> length s"
  by (auto simp: lex_exp_def split: list.splits if_splits option.splits dest!: digits1_shorter)

lemma lex_unsigned_shorter: "lex_unsigned s = Some (ds, r) \<Longrightarrow> length r < length s"
  by (auto simp: lex_unsigned_def split: option.splits
      dest!: lex_int_shorter lex_frac_shorter lex_exp_shorter)

lemma lex_number_shorter: "lex_number s = Some (ds, r) \<Longrightarrow> length r < length s"
  by (auto simp: lex_number_def split: list.splits if_splits option.splits
      dest!: lex_unsigned_shorter)

definition emit :: "token \<Rightarrow> token list option \<Rightarrow> token list option" where
  "emit t r = map_option ((#) t) r"

function tokens :: "string \<Rightarrow> token list option" where
  "tokens [] = Some []"
| "tokens (c # cs) =
     (if json_ws c then tokens cs
      else if c = CHR ''{'' then emit LBrace (tokens cs)
      else if c = CHR ''}'' then emit RBrace (tokens cs)
      else if c = CHR ''['' then emit LBracket (tokens cs)
      else if c = CHR '']'' then emit RBracket (tokens cs)
      else if c = CHR '':'' then emit Colon (tokens cs)
      else if c = CHR '','' then emit Comma (tokens cs)
      else if c = CHR 0x22 then
        (case lex_string cs of
           None \<Rightarrow> None
         | Some (ks, r) \<Rightarrow> emit (TString ks) (tokens r))
      else if c = CHR ''-'' \<or> digit c then
        (case lex_number (c # cs) of
           None \<Rightarrow> None
         | Some (n, r) \<Rightarrow> emit (TNumber n) (tokens r))
      else if prefix ''true'' (c # cs) then emit TTrue (tokens (drop 4 (c # cs)))
      else if prefix ''false'' (c # cs) then emit TFalse (tokens (drop 5 (c # cs)))
      else if prefix ''null'' (c # cs) then emit TNull (tokens (drop 4 (c # cs)))
      else None)"
  by pat_completeness auto
termination
  apply (relation "measure length")
              apply simp_all
  subgoal for c cs x2 x y
    using lex_string_shorter [of cs x y] by simp
  subgoal for c cs x2 x y
    using lex_number_shorter [of "c # cs" x y] by simp
  done

text \<open>
  The parser reads the tokens from left to right with a stack of the arrays and objects
  that are open. An \<open>ArrayFrame\<close> holds the elements read so far, last first; an
  \<open>ObjectFrame\<close> holds the members read so far, last first, and the key whose value
  is awaited.
\<close>

datatype frame =
  ArrayFrame "json list"
  | ObjectFrame "(nat list \<times> json) list" "nat list option"

datatype expect = EValue | EValueOrEnd | EKey | EKeyOrEnd | EColon | ECommaOrEnd

datatype pstate = Busy "frame list" expect | Done json

fun deliver :: "json \<Rightarrow> frame list \<Rightarrow> pstate option" where
  "deliver v [] = Some (Done v)"
| "deliver v (ArrayFrame vs # st) = Some (Busy (ArrayFrame (v # vs) # st) ECommaOrEnd)"
| "deliver v (ObjectFrame kvs (Some k) # st) =
     Some (Busy (ObjectFrame ((k, v) # kvs) None # st) ECommaOrEnd)"
| "deliver v (ObjectFrame kvs None # st) = None"

fun scalar :: "token \<Rightarrow> json option" where
  "scalar (TString ks) = Some (JString ks)"
| "scalar (TNumber n) = Some (JNumber n)"
| "scalar TTrue = Some (JBool True)"
| "scalar TFalse = Some (JBool False)"
| "scalar TNull = Some JNull"
| "scalar t = None"

fun value_start :: "frame list \<Rightarrow> token \<Rightarrow> pstate option" where
  "value_start st LBracket = Some (Busy (ArrayFrame [] # st) EValueOrEnd)"
| "value_start st LBrace = Some (Busy (ObjectFrame [] None # st) EKeyOrEnd)"
| "value_start st t = (case scalar t of None \<Rightarrow> None | Some v \<Rightarrow> deliver v st)"

fun close_array :: "frame list \<Rightarrow> pstate option" where
  "close_array (ArrayFrame vs # st) = deliver (JArray (rev vs)) st"
| "close_array st = None"

fun close_object :: "frame list \<Rightarrow> pstate option" where
  "close_object (ObjectFrame kvs None # st) = deliver (JObject (rev kvs)) st"
| "close_object st = None"

fun key_start :: "frame list \<Rightarrow> token \<Rightarrow> pstate option" where
  "key_start (ObjectFrame kvs None # st) (TString k) =
     Some (Busy (ObjectFrame kvs (Some k) # st) EColon)"
| "key_start st t = None"

fun after_comma :: "frame list \<Rightarrow> pstate option" where
  "after_comma (ArrayFrame vs # st) = Some (Busy (ArrayFrame vs # st) EValue)"
| "after_comma (ObjectFrame kvs k # st) = Some (Busy (ObjectFrame kvs k # st) EKey)"
| "after_comma [] = None"

fun step :: "pstate \<Rightarrow> token \<Rightarrow> pstate option" where
  "step (Done v) t = None"
| "step (Busy st EValue) t = value_start st t"
| "step (Busy st EValueOrEnd) t = (if t = RBracket then close_array st else value_start st t)"
| "step (Busy st EKey) t = key_start st t"
| "step (Busy st EKeyOrEnd) t = (if t = RBrace then close_object st else key_start st t)"
| "step (Busy st EColon) t = (if t = Colon then Some (Busy st EValue) else None)"
| "step (Busy st ECommaOrEnd) t =
     (if t = Comma then after_comma st
      else if t = RBracket then close_array st
      else if t = RBrace then close_object st
      else None)"

fun steps :: "pstate \<Rightarrow> token list \<Rightarrow> pstate option" where
  "steps q [] = Some q"
| "steps q (t # ts) = (case step q t of None \<Rightarrow> None | Some q' \<Rightarrow> steps q' ts)"

text \<open>
  \<^verbatim>\<open>JSON.parse(text)\<close>: the value, or the SyntaxError it throws. An object keeps its
  members as the text lists them; a key that the text repeats is listed for each of its
  occurrences.
\<close>

definition JSON_parse :: "string \<Rightarrow> js_error + json" where
  "JSON_parse text =
     (case tokens text of
        None \<Rightarrow> Inl (SyntaxError text)
      | Some ts \<Rightarrow>
          (case steps (Busy [] EValue) ts of
             Some (Done v) \<Rightarrow> Inr v
           | _ \<Rightarrow> Inl (SyntaxError text)))"

text \<open>\<^verbatim>\<open>String(n)\<close> for a natural number: its decimal digits.\<close>

function decimal :: "nat \<Rightarrow> string" where
  "decimal n =
     (if n < 10 then [char_of (48 + n)] else decimal (n div 10) @ [char_of (48 + n mod 10)])"
  by pat_completeness auto
termination
  by (relation "measure id") auto

text \<open>
  \<^verbatim>\<open>json.hasOwnProperty(key)\<close> on a value that \<^verbatim>\<open>JSON.parse\<close> returned. The method is
  looked up on the value first:
  \<^item> \<^verbatim>\<open>null\<close> has no properties, and the lookup throws a TypeError;
  \<^item> an object that has a member named \<^verbatim>\<open>hasOwnProperty\<close> of its own hides the method
    of \<^verbatim>\<open>Object.prototype\<close> behind a JSON value, which is not a function: the call throws a
    TypeError;
  \<^item> any other object answers whether it has a member with that key;
  \<^item> the own properties of an array, and of a string, are \<^verbatim>\<open>length\<close> and the indices
    below its length, written in decimal;
  \<^item> a number and a boolean have no own properties.
\<close>

definition code_units :: "string \<Rightarrow> nat list" where
  "code_units s = map of_char s"

definition indexed :: "nat \<Rightarrow> string \<Rightarrow> bool" where
  "indexed n key = (key = ''length'' \<or> key \<in> set (map decimal [0..<n]))"

fun hasOwnProperty :: "json \<Rightarrow> string \<Rightarrow> js_error + bool" where
  "hasOwnProperty JNull key = Inl TypeError"
| "hasOwnProperty (JObject kvs) key =
     (if code_units ''hasOwnProperty'' \<in> set (map fst kvs) then Inl TypeError
      else Inr (code_units key \<in> set (map fst kvs)))"
| "hasOwnProperty (JArray vs) key = Inr (indexed (length vs) key)"
| "hasOwnProperty (JString ks) key = Inr (indexed (length ks) key)"
| "hasOwnProperty (JNumber n) key = Inr False"
| "hasOwnProperty (JBool b) key = Inr False"

section \<open>The checks\<close>

text \<open>
  A check of the harness is an object \<^verbatim>\<open>{ type, value }\<close>; \<^verbatim>\<open>checkContent\<close> pushes an
  object \<^verbatim>\<open>{ check, found }\<close> for each.
\<close>

record check =
  check_type :: string
  check_value :: string

record outcome =
  check :: check
  found :: bool

text \<open>The sources of the four regular expressions, as the template strings build them.\<close>

definition titleSource :: string where
  \<open>titleSource = ''<title[^>]*>([^<]*)</title>''\<close>

definition classSource :: "string \<Rightarrow> string" where
  \<open>classSource v = ''<[^>]*class="[^"]*'' @ v @ ''[^"]*"''\<close>

definition idSource :: "string \<Rightarrow> string" where
  \<open>idSource v = ''<[^>]*id="'' @ v @ ''"''\<close>

definition tagSource :: "string \<Rightarrow> string" where
  \<open>tagSource v = ''<'' @ v @ ''[^>]*>''\<close>

text \<open>
  The \<^verbatim>\<open>title\<close> branch: \<^verbatim>\<open>match && match[1].includes(check.value)\<close>. Reading
  \<^verbatim>\<open>includes\<close> of a capture that the match array does not have throws a TypeError.
  Without a match \<^verbatim>\<open>found\<close> is \<^verbatim>\<open>null\<close>; the harness only tests \<^verbatim>\<open>found\<close> for its
  truth, and the model has false for it.
\<close>

definition title_found :: "engine \<Rightarrow> string \<Rightarrow> string \<Rightarrow> js_error + bool" where
  "title_found host html v =
     (case RegExp_i host titleSource of
        Inl e \<Rightarrow> Inl e
      | Inr titleRegex \<Rightarrow>
          (case match html titleRegex of
             None \<Rightarrow> Inr False
           | Some m \<Rightarrow>
               (case m of
                  whole # capture # others \<Rightarrow> Inr (str_includes capture v)
                | _ \<Rightarrow> Inl TypeError)))"

text \<open>
  The \<^verbatim>\<open>element\<close> branch: the three regular expressions are built first, then tested
  from left to right until one matches.
\<close>

definition element_found :: "engine \<Rightarrow> string \<Rightarrow> string \<Rightarrow> js_error + bool" where
  "element_found host html v =
     (case RegExp_i host (classSource v) of
        Inl e \<Rightarrow> Inl e
      | Inr classRegex \<Rightarrow>
          (case RegExp_i host (idSource v) of
             Inl e \<Rightarrow> Inl e
           | Inr idRegex \<Rightarrow>
               (case RegExp_i host (tagSource v) of
                  Inl e \<Rightarrow> Inl e
                | Inr tagRegex \<Rightarrow>
                    Inr (test classRegex html \<or> test idRegex html \<or> test tagRegex html))))"

text \<open>The \<^verbatim>\<open>json\<close> branch: whatever the \<^verbatim>\<open>try\<close> block throws, \<^verbatim>\<open>found\<close> is false.\<close>

definition json_found :: "string \<Rightarrow> string \<Rightarrow> bool" where
  "json_found html v =
     (case JSON_parse html of
        Inl e \<Rightarrow> False
      | Inr json \<Rightarrow> (case hasOwnProperty json v of Inl e \<Rightarrow> False | Inr b \<Rightarrow> b))"

text \<open>The body of the loop of \<^verbatim>\<open>checkContent\<close>: the value of \<^verbatim>\<open>found\<close> for one check.\<close>

definition check_found :: "engine \<Rightarrow> string \<Rightarrow> check \<Rightarrow> js_error + bool" where
  "check_found host html c =
     (if check_type c = ''title'' then title_found host html (check_value c)
      else if check_type c = ''content'' then Inr (str_includes html (check_value c))
      else if check_type c = ''element'' then element_found host html (check_value c)
      else if check_type c = ''json'' then Inr (json_found html (check_value c))
      else Inr False)"

fun checkContent_loop ::
  "engine \<Rightarrow> string \<Rightarrow> check list \<Rightarrow> outcome list \<Rightarrow> js_error + outcome list" where
  "checkContent_loop host html [] results = Inr results"
| "checkContent_loop host html (c # cs) results =
     (case check_found host html c of
        Inl e \<Rightarrow> Inl e
      | Inr f \<Rightarrow> checkContent_loop host html cs (results @ [\<lparr>check = c, found = f\<rparr>]))"

definition checkContent :: "engine \<Rightarrow> string \<Rightarrow> check list \<Rightarrow> js_error + outcome list" where
  "checkContent host html checks = checkContent_loop host html checks []"

section \<open>The harness\<close>

record test_case =
  name :: string
  url :: string
  checks :: "check list"

record response =
  status :: int
  data :: string
  headers :: "(string \<times> string) list"

definition mk_check :: "string \<Rightarrow> string \<Rightarrow> check" where
  "mk_check t v = \<lparr>check_type = t, check_value = v\<rparr>"

definition tests :: "test_case list" where
  \<open>tests =
    [\<lparr>name = ''Homepage Complete Test'', url = ''http://localhost:3000/'',
      checks =
        [mk_check ''title'' ''Future Agent - Cannabis Industry Knowledge'',
         mk_check ''content'' ''16,337'',
         mk_check ''content'' ''1,456'',
         mk_check ''content'' ''Cannabis Industry Knowledge Agent'',
         mk_check ''element'' ''h1'',
         mk_check ''element'' ''stats-grid'',
         mk_check ''element'' ''features'',
         mk_check ''element'' ''cta-section'']\<rparr>,
     \<lparr>name = ''F8 Comparison Complete Test'', url = ''http://localhost:3000/f8-comparison.html'',
      checks =
        [mk_check ''title'' ''F8 vs Future4200 Comparison'',
         mk_check ''content'' ''Compare F8 LangChain responses'',
         mk_check ''element'' ''h1'',
         mk_check ''element'' ''stats-grid'',
         mk_check ''element'' ''filters'',
         mk_check ''element'' ''comparisonResults'',
         mk_check ''element'' ''search-box'']\<rparr>,
     \<lparr>name = ''Data Loading Test'', url = ''http://localhost:3000/data/f8_responses_demo.json'',
      checks =
        [mk_check ''json'' ''total_questions'',
         mk_check ''json'' ''results'']\<rparr>,
     \<lparr>name = ''Statistics Data Test'', url = ''http://localhost:3000/data/f8_processing_stats.json'',
      checks =
        [mk_check ''json'' ''total_questions'',
         mk_check ''json'' ''successful'']\<rparr>]\<close>

text \<open>
  What the network does to a request, as \<^verbatim>\<open>makeRequest\<close> sees it. The promise of
  \<^verbatim>\<open>makeRequest\<close> has three ways to settle and no other: the \<^verbatim>\<open>end\<close> of the response
  resolves it, the \<^verbatim>\<open>error\<close> of the request rejects it, and the callback of
  \<^verbatim>\<open>req.setTimeout(10000, ...)\<close> rejects it. A promise settles once: the first of these
  decides, and what follows is ignored.
  \<^item> \<open>Answer r\<close>: the response ends, with its status, body and headers.
  \<^item> \<open>Failure m\<close>: the request emits \<^verbatim>\<open>error\<close> with the message \<open>m\<close> (the connection is
    refused or reset, the name does not resolve, the response is malformed).
  \<^item> \<open>Idle\<close>: the socket stays silent, and the timeout fires after its 10000 ms.
  \<^item> \<open>Unfinished\<close>: the response starts and never ends: the connection closes before
    the body is complete (the response emits \<^verbatim>\<open>aborted\<close> and \<^verbatim>\<open>close\<close>, and \<^verbatim>\<open>makeRequest\<close>
    listens to neither), or its data keeps arriving. Nothing settles the promise.
  \<^item> \<open>After ms e\<close>: the socket is silent for \<open>ms\<close> milliseconds, then \<open>e\<close> happens. A
    silence of 10000 ms or more fires the timeout before \<open>e\<close>.
  The network is a parameter: the event of every request, by the number of requests
  sent before it.
\<close>

datatype net_event = Answer response | Failure string | Idle | Unfinished | After nat net_event

type_synonym network = "nat \<Rightarrow> net_event"

datatype 'a promise = Resolved 'a | Rejected js_error | Pending

fun settle :: "net_event \<Rightarrow> response promise" where
  "settle (Answer r) = Resolved r"
| "settle (Failure m) = Rejected (Error m)"
| "settle Idle = Rejected (Error ''Request timeout'')"
| "settle Unfinished = Pending"
| "settle (After ms e) = (if 10000 \<le> ms then Rejected (Error ''Request timeout'') else settle e)"

text \<open>
  The console, one constructor for each \<^verbatim>\<open>console.log\<close> of the harness with the values
  its template prints, and the URLs requested so far.
\<close>

datatype line =
  Banner
  | Testing string
  | Url string
  | Status_ok int
  | Content_type string
  | Found string string
  | Missing string string
  | PASSED string
  | PARTIAL_PASS string
  | Status_failed int
  | Caught js_error
  | Starting
  | Results
  | Passed_of nat nat
  | Success_rate "int option"
  | All_passed
  | Features_verified
  | Verified nat
  | Some_failed
  | Checking_server
  | Server_running
  | Server_not_running
  | Hint_python
  | Hint_npm

record harness =
  console :: "line list"
  sent :: "string list"

definition log :: "line \<Rightarrow> harness \<Rightarrow> harness" where
  "log l h = h\<lparr>console := console h @ [l]\<rparr>"

definition makeRequest :: "network \<Rightarrow> string \<Rightarrow> harness \<Rightarrow> response promise \<times> harness" where
  "makeRequest net u h = (settle (net (length (sent h))), h\<lparr>sent := sent h @ [u]\<rparr>)"

text \<open>\<^verbatim>\<open>headers['content-type'] || ''\<close>\<close>

definition content_type :: "(string \<times> string) list \<Rightarrow> string" where
  "content_type hs = (case map_of hs ''content-type'' of None \<Rightarrow> [] | Some v \<Rightarrow> v)"

text \<open>The loop of \<^verbatim>\<open>runTest\<close> over the outcomes; \<open>allPassed\<close> starts as true.\<close>

fun report :: "outcome list \<Rightarrow> bool \<Rightarrow> harness \<Rightarrow> bool \<times> harness" where
  "report [] allPassed h = (allPassed, h)"
| "report (r # rs) allPassed h =
     (if found r
      then report rs allPassed (log (Found (check_value (check r)) (check_type (check r))) h)
      else report rs False (log (Missing (check_value (check r)) (check_type (check r))) h))"

text \<open>
  \<^verbatim>\<open>runTest\<close> is an async function: it returns true or false once the promise of its
  request has settled, and never returns while that promise is pending (\<open>None\<close>: the
  \<^verbatim>\<open>await\<close> does not resume, and nothing more is printed).
\<close>

definition runTest ::
  "engine \<Rightarrow> network \<Rightarrow> test_case \<Rightarrow> harness \<Rightarrow> bool option \<times> harness" where
  "runTest host net t h =
     (let h1 = log (Url (url t)) (log (Testing (name t)) h);
          (settled, h2) = makeRequest net (url t) h1
      in case settled of
           Pending \<Rightarrow> (None, h2)
         | Rejected error \<Rightarrow> (Some False, log (Caught error) h2)
         | Resolved r \<Rightarrow>
             if status r = 200 then
               (let h3 = log (Status_ok (status r)) h2;
                    h4 = (if str_includes (url t) ''.json''
                          then log (Content_type (content_type (headers r))) h3 else h3)
                in case checkContent host (data r) (checks t) of
                     Inl error \<Rightarrow> (Some False, log (Caught error) h4)
                   | Inr results \<Rightarrow>
                       (let (allPassed, h5) = report results True h4
                        in if allPassed then (Some True, log (PASSED (name t)) h5)
                           else (Some False, log (PARTIAL_PASS (name t)) h5)))
             else (Some False, log (Status_failed (status r)) h2))"

text \<open>
  The success rate is \<^verbatim>\<open>Math.round((passed / total) * 100)\<close>, computed on Numbers:
  IEEE 754 binary64 values, each operation rounded to the nearest value with a 53-bit
  significand, ties to the even significand. \<open>binary64 x\<close> is that rounding of a
  positive rational \<open>x\<close> in the normal range (the quotients and products of the harness
  are: \<open>passed\<close> and \<open>total\<close> are lengths and counts). \<open>binade x\<close> is the exponent \<open>e\<close>
  with \<open>2 ^ e \<le> x < 2 ^ (e + 1)\<close>.
\<close>

definition pow2 :: "int \<Rightarrow> rat" where
  "pow2 e = (if 0 \<le> e then 2 ^ nat e else 1 / 2 ^ nat (- e))"

definition binade :: "rat \<Rightarrow> int" where
  "binade x =
     (if 1 \<le> x then int (floorlog 2 (nat \<lfloor>x\<rfloor>)) - 1
      else - int (floorlog 2 (nat (\<lceil>1 / x\<rceil> - 1))))"

definition round_half_even :: "rat \<Rightarrow> int" where
  "round_half_even y =
     (let f = \<lfloor>y\<rfloor>; r = y - of_int f
      in if r < 1 / 2 then f else if 1 / 2 < r then f + 1 else if even f then f else f + 1)"

definition binary64 :: "rat \<Rightarrow> rat" where
  "binary64 x =
     (if x = 0 then 0
      else of_int (round_half_even (x / pow2 (binade x - 52))) * pow2 (binade x - 52))"

text \<open>\<^verbatim>\<open>Math.round\<close>: the nearest integer, a tie going up.\<close>

definition Math_round :: "rat \<Rightarrow> int" where
  "Math_round x = \<lfloor>x + 1 / 2\<rfloor>"

text \<open>With no test at all the quotient is \<^verbatim>\<open>0 / 0\<close>, and the rate printed is \<^verbatim>\<open>NaN\<close>.\<close>

definition success_rate :: "nat \<Rightarrow> nat \<Rightarrow> int option" where
  "success_rate passed total' =
     (if total' = 0 then None
      else Some (Math_round (binary64 (binary64 (of_nat passed / of_nat total') * 100))))"

text \<open>
  The loop of \<^verbatim>\<open>runAllTests\<close>: it awaits each test in turn, so a test that never returns
  ends the loop there (\<open>None\<close>), with no test after it started. The harness reads its
  list of tests from a constant; the list is an argument here, and \<open>main\<close> passes the
  constant.
\<close>

fun run_tests ::
  "engine \<Rightarrow> network \<Rightarrow> test_case list \<Rightarrow> nat \<Rightarrow> harness \<Rightarrow> nat option \<times> harness" where
  "run_tests host net [] passed h = (Some passed, h)"
| "run_tests host net (t # ts) passed h =
     (case runTest host net t h of
        (None, h') \<Rightarrow> (None, h')
      | (Some result, h') \<Rightarrow> run_tests host net ts (if result then passed + 1 else passed) h')"

definition all_passed_block :: "line list" where
  "all_passed_block =
     [All_passed, Features_verified, Verified 1, Verified 2, Verified 3, Verified 4, Verified 5]"

text \<open>
  \<^verbatim>\<open>runAllTests\<close>, by the console and the requests it leaves behind: the summary is
  printed when the loop has come to its end.
\<close>

definition runAllTests :: "engine \<Rightarrow> network \<Rightarrow> test_case list \<Rightarrow> harness \<Rightarrow> harness" where
  "runAllTests host net ts h =
     (let h1 = log Starting h;
          total' = length ts
      in case run_tests host net ts 0 h1 of
           (None, h2) \<Rightarrow> h2
         | (Some passed, h2) \<Rightarrow>
             (let h3 = log (Success_rate (success_rate passed total'))
                         (log (Passed_of passed total') (log Results h2))
              in if passed = total' then fold log all_passed_block h3 else log Some_failed h3))"

text \<open>
  The script itself: the banner, then the probe of the root path; the tests run in the
  \<^verbatim>\<open>then\<close> of the probe, the \<^verbatim>\<open>catch\<close> prints how to start the server, and neither runs
  while the probe is pending.
\<close>

definition main :: "engine \<Rightarrow> network \<Rightarrow> harness" where
  "main host net =
     (let h0 = log Checking_server (log Banner \<lparr>console = [], sent = []\<rparr>);
          (probe, h1) = makeRequest net ''http://localhost:3000/'' h0
      in case probe of
           Resolved r \<Rightarrow> runAllTests host net tests (log Server_running h1)
         | Rejected error \<Rightarrow> log Hint_npm (log Hint_python (log Server_not_running h1))
         | Pending \<Rightarrow> h1)"

text \<open>
  The verdict of a test is what \<^verbatim>\<open>runTest\<close> printed last: \<^verbatim>\<open>PASSED\<close>,
  \<^verbatim>\<open>PARTIAL PASS\<close>, or the status or the error of a failure. A test whose request
  never settles has printed none of these, and has no verdict.
\<close>

datatype verdict = Passed | Partial_pass | Failed

fun verdict_of :: "line \<Rightarrow> verdict option" where
  "verdict_of (PASSED n) = Some Passed"
| "verdict_of (PARTIAL_PASS n) = Some Partial_pass"
| "verdict_of (Status_failed s) = Some Failed"
| "verdict_of (Caught e) = Some Failed"
| "verdict_of l = None"

definition verdict :: "engine \<Rightarrow> network \<Rightarrow> test_case \<Rightarrow> harness \<Rightarrow> verdict option" where
  "verdict host net t h = verdict_of (last (console (snd (runTest host net t h))))"

section \<open>Reasoning about the regular expressions\<close>

text \<open>The items of a source made of literal characters.\<close>

definition lits :: "string \<Rightarrow> item list" where
  "lits w = map (\<lambda>c. One (Chr c)) w"

text \<open>
  A character without a meaning in a regular expression: the parser reads it as a
  literal, wherever it stands outside a class.
\<close>

definition plain :: "char \<Rightarrow> bool" where
  "plain c = (c \<notin> set ''[()*'' \<and> \<not> beyond_outside c)"

text \<open>
  The strings that a pattern matches as a whole: a declarative reading of the items,
  proved below to be what the backtracking matcher \<open>run\<close> finds.
\<close>

fun spans :: "item list \<Rightarrow> string \<Rightarrow> bool" where
  "spans [] u = (u = [])"
| "spans (One a # p) u = (\<exists>c u'. u = c # u' \<and> accepts a c \<and> spans p u')"
| "spans (Many a # p) u = (\<exists>xs u'. u = xs @ u' \<and> (\<forall>c \<in> set xs. accepts a c) \<and> spans p u')"
| "spans (Open # p) u = spans p u"
| "spans (Close # p) u = spans p u"

lemma parse_plain:
  "\<forall>c \<in> set w. plain c \<Longrightarrow>
     parse_from Outside acc d (w @ rest) = parse_from Outside (rev (lits w) @ acc) d rest"
  by (induction w arbitrary: acc) (auto simp: plain_def lits_def)

lemma uncased_eq:
  assumes "of_char x < (65::nat) \<or> (90 < (of_char x::nat) \<and> (of_char x::nat) < 97)
           \<or> (122 < (of_char x::nat) \<and> (of_char x::nat) < 128)"
  shows "Canonicalize c = Canonicalize x \<longleftrightarrow> c = x"
proof -
  have "(of_char c :: nat) = of_char x \<longleftrightarrow> c = x" by simp
  moreover have "Canonicalize c = Canonicalize x \<longleftrightarrow> (of_char c :: nat) = of_char x"
    using assms unfolding Canonicalize_def Let_def by (auto split: if_splits)
  ultimately show ?thesis by simp
qed

lemma canon_lt [simp]: "Canonicalize c = Canonicalize (CHR ''<'') \<longleftrightarrow> c = CHR ''<''"
  by (rule uncased_eq) simp
lemma canon_gt [simp]: "Canonicalize c = Canonicalize (CHR ''>'') \<longleftrightarrow> c = CHR ''>''"
  by (rule uncased_eq) simp
lemma canon_dq [simp]: "Canonicalize c = Canonicalize (CHR 0x22) \<longleftrightarrow> c = CHR 0x22"
  by (rule uncased_eq) simp

lemma run_length: "run p s = Some ts \<Longrightarrow> length ts = length p"
  by (induction p s arbitrary: ts rule: run.induct)
    (auto split: if_splits option.splits list.splits)

lemma run_concat: "run p s = Some ts \<Longrightarrow> \<exists>v. s = concat ts @ v"
  by (induction p s arbitrary: ts rule: run.induct)
    (auto split: if_splits option.splits list.splits)

lemma run_spans: "run p s = Some ts \<Longrightarrow> spans p (concat ts)"
proof (induction p s arbitrary: ts rule: run.induct)
  case (5 a p c s)
  show ?case
  proof (cases "accepts a c")
    case False
    with 5 show ?thesis by (auto intro: exI [of _ "[]"])
  next
    case True
    show ?thesis
    proof (cases "run (Many a # p) s")
      case None
      with 5 True show ?thesis by (auto intro: exI [of _ "[]"])
    next
      case (Some us)
      show ?thesis
      proof (cases us)
        case Nil
        with 5 True Some show ?thesis by (auto intro: exI [of _ "[]"])
      next
        case (Cons t ts')
        with "5.prems" True Some have ts: "ts = (c # t) # ts'" by simp
        from "5.IH"(1) [OF True Some] Cons obtain xs u' where
          "t @ concat ts' = xs @ u'" "\<forall>c \<in> set xs. accepts a c" "spans p u'"
          by auto
        then have "c # t @ concat ts' = (c # xs) @ u'" "\<forall>x \<in> set (c # xs). accepts a x"
          using True by simp_all
        with \<open>spans p u'\<close> have "spans (Many a # p) (c # t @ concat ts')"
          unfolding spans.simps by blast
        then show ?thesis using ts by simp
      qed
    qed
  qed
qed (auto split: if_splits intro: exI [of _ "[]"])

lemma run_Many_skip: "run p s \<noteq> None \<Longrightarrow> run (Many a # p) s \<noteq> None"
  by (cases s) (auto split: option.splits list.splits)

lemma run_Many_take:
  assumes "\<forall>c \<in> set xs. accepts a c" and "run p s \<noteq> None"
  shows "run (Many a # p) (xs @ s) \<noteq> None"
  using assms
proof (induction xs)
  case Nil
  then show ?case by (simp add: run_Many_skip)
next
  case (Cons x xs)
  then obtain us where us: "run (Many a # p) (xs @ s) = Some us" by auto
  with run_length have "length us = Suc (length p)" by fastforce
  then obtain t ts where "us = t # ts" by (cases us) auto
  with us Cons.prems show ?case by simp
qed

lemma spans_run: "spans p u \<Longrightarrow> run p (u @ v) \<noteq> None"
proof (induction p arbitrary: u)
  case Nil
  then show ?case by simp
next
  case (Cons i p)
  show ?case
  proof (cases i)
    case (One a)
    with Cons show ?thesis by auto
  next
    case (Many a)
    with Cons.prems obtain xs u' where "u = xs @ u'" "\<forall>c \<in> set xs. accepts a c" "spans p u'"
      by auto
    with Cons.IH [of u'] Many show ?thesis
      using run_Many_take [of xs a p "u' @ v"] by simp
  next
    case Open
    with Cons show ?thesis by auto
  next
    case Close
    with Cons show ?thesis by auto
  qed
qed

lemma run_iff_spans: "run p s \<noteq> None \<longleftrightarrow> (\<exists>u v. s = u @ v \<and> spans p u)"
proof
  assume "run p s \<noteq> None"
  then obtain ts where ts: "run p s = Some ts" by auto
  from run_concat [OF ts] run_spans [OF ts] show "\<exists>u v. s = u @ v \<and> spans p u" by blast
next
  assume "\<exists>u v. s = u @ v \<and> spans p u"
  then show "run p s \<noteq> None" using spans_run by blast
qed

lemma exec_iff_run: "exec p s \<noteq> None \<longleftrightarrow> (\<exists>pre rest. s = pre @ rest \<and> run p rest \<noteq> None)"
proof (induction s)
  case Nil
  show ?case by (auto split: option.splits)
next
  case (Cons c s)
  show ?case
  proof (cases "run p (c # s)")
    case (Some ts)
    then have "exec p (c # s) \<noteq> None" by simp
    moreover have "\<exists>pre rest. c # s = pre @ rest \<and> run p rest \<noteq> None"
      using Some by (intro exI [of _ "[]"] exI [of _ "c # s"]) simp
    ultimately show ?thesis by blast
  next
    case None
    then have e: "exec p (c # s) = exec p s" by simp
    have "(\<exists>pre rest. c # s = pre @ rest \<and> run p rest \<noteq> None)
        \<longleftrightarrow> (\<exists>pre rest. s = pre @ rest \<and> run p rest \<noteq> None)"
    proof
      assume "\<exists>pre rest. c # s = pre @ rest \<and> run p rest \<noteq> None"
      then obtain pre rest where pr: "c # s = pre @ rest" "run p rest \<noteq> None" by blast
      with None have "pre \<noteq> []" by auto
      then obtain pre' where "pre = c # pre'" using pr(1) by (cases pre) auto
      with pr show "\<exists>pre rest. s = pre @ rest \<and> run p rest \<noteq> None" by auto
    next
      assume "\<exists>pre rest. s = pre @ rest \<and> run p rest \<noteq> None"
      then obtain pre rest where "s = pre @ rest" "run p rest \<noteq> None" by blast
      then show "\<exists>pre rest. c # s = pre @ rest \<and> run p rest \<noteq> None"
        by (intro exI [of _ "c # pre"] exI [of _ rest]) simp
    qed
    with e Cons.IH show ?thesis by simp
  qed
qed

lemma test_exec_iff:
  "test (exec p) s \<longleftrightarrow> (\<exists>pre u post. s = pre @ u @ post \<and> spans p u)"
  unfolding test_def exec_iff_run run_iff_spans by blast

lemma spans_append:
  "spans (p @ q) w \<longleftrightarrow> (\<exists>u v. w = u @ v \<and> spans p u \<and> spans q v)"
proof (induction p arbitrary: w)
  case Nil
  then show ?case by simp
next
  case (Cons i p)
  show ?case
  proof (cases i)
    case (One a)
    with Cons show ?thesis
      by (auto simp: Cons_eq_append_conv) (metis append_Cons)+
  next
    case (Many a)
    show ?thesis
    proof
      assume "spans ((i # p) @ q) w"
      with Many Cons obtain xs u v where "w = xs @ u @ v" "\<forall>c \<in> set xs. accepts a c"
        "spans p u" "spans q v" by auto
      then show "\<exists>u v. w = u @ v \<and> spans (i # p) u \<and> spans q v"
        using Many by (intro exI [of _ "xs @ u"] exI [of _ v]) auto
    next
      assume "\<exists>u v. w = u @ v \<and> spans (i # p) u \<and> spans q v"
      with Many obtain xs u v where "w = (xs @ u) @ v" "\<forall>c \<in> set xs. accepts a c"
        "spans p u" "spans q v" by auto
      then show "spans ((i # p) @ q) w"
        using Many Cons by auto
    qed
  next
    case Open
    with Cons show ?thesis by simp
  next
    case Close
    with Cons show ?thesis by simp
  qed
qed

lemma spans_lits: "spans (lits w) u \<longleftrightarrow> ci_eq u w"
  by (induction w arbitrary: u) (auto simp: lits_def ci_eq_def)

lemma spans_One: "spans [One a] u \<longleftrightarrow> (\<exists>c. u = [c] \<and> accepts a c)"
  by auto

lemma spans_Many: "spans [Many a] u \<longleftrightarrow> (\<forall>c \<in> set u. accepts a c)"
  by auto

text \<open>The items of the three patterns of an element check, for a value of plain characters.\<close>

definition class_items :: "string \<Rightarrow> item list" where
  \<open>class_items v =
     [One (Chr (CHR ''<'')), Many (Cls True ''>'')] @ lits ''class="'' @ [Many (Cls True [CHR 0x22])]
       @ lits v @ [Many (Cls True [CHR 0x22]), One (Chr (CHR 0x22))]\<close>

definition id_items :: "string \<Rightarrow> item list" where
  \<open>id_items v =
     [One (Chr (CHR ''<'')), Many (Cls True ''>'')] @ lits ''id="'' @ lits v @ [One (Chr (CHR 0x22))]\<close>

definition tag_items :: "string \<Rightarrow> item list" where
  \<open>tag_items v = [One (Chr (CHR ''<''))] @ lits v @ [Many (Cls True ''>''), One (Chr (CHR ''>''))]\<close>

lemma parse_classSource:
  assumes "\<forall>c \<in> set v. plain c"
  shows "parse_pattern (classSource v) = Parsed (class_items v)"
proof -
  have "parse_pattern (classSource v)
      = parse_from Outside (rev ([One (Chr (CHR ''<'')), Many (Cls True ''>'')] @ lits ''class=\"''
            @ [Many (Cls True [CHR 0x22])])) 0 (v @ ''[^\"]*\"'')"
    by (simp add: parse_pattern_def classSource_def beyond_outside_def beyond_inside_def lits_def)
  also have "\<dots> = Parsed (class_items v)"
    by (simp add: parse_plain [OF assms] class_items_def beyond_outside_def beyond_inside_def lits_def)
  finally show ?thesis .
qed

lemma parse_idSource:
  assumes "\<forall>c \<in> set v. plain c"
  shows "parse_pattern (idSource v) = Parsed (id_items v)"
proof -
  have "parse_pattern (idSource v)
      = parse_from Outside (rev ([One (Chr (CHR ''<'')), Many (Cls True ''>'')] @ lits ''id=\"'')) 0
          (v @ ''\"'')"
    by (simp add: parse_pattern_def idSource_def beyond_outside_def beyond_inside_def lits_def)
  also have "\<dots> = Parsed (id_items v)"
    by (simp add: parse_plain [OF assms] id_items_def beyond_outside_def beyond_inside_def lits_def)
  finally show ?thesis .
qed

lemma parse_tagSource:
  assumes "\<forall>c \<in> set v. plain c"
  shows "parse_pattern (tagSource v) = Parsed (tag_items v)"
proof -
  have "parse_pattern (tagSource v)
      = parse_from Outside (rev [One (Chr (CHR ''<''))]) 0 (v @ ''[^>]*>'')"
    by (simp add: parse_pattern_def tagSource_def beyond_outside_def beyond_inside_def lits_def)
  also have "\<dots> = Parsed (tag_items v)"
    by (simp add: parse_plain [OF assms] tag_items_def beyond_outside_def beyond_inside_def lits_def)
  finally show ?thesis .
qed

lemma accepts_not_gt [simp]: "accepts (Cls True ''>'') c \<longleftrightarrow> c \<noteq> CHR ''>''"
  by simp
lemma accepts_not_lt [simp]: "accepts (Cls True ''<'') c \<longleftrightarrow> c \<noteq> CHR ''<''"
  by simp
lemma accepts_not_dq [simp]: "accepts (Cls True [CHR 0x22]) c \<longleftrightarrow> c \<noteq> CHR 0x22"
  by simp
lemma accepts_lt [simp]: "accepts (Chr (CHR ''<'')) c \<longleftrightarrow> c = CHR ''<''"
  by (simp add: eq_commute [of "Canonicalize (CHR ''<'')"])
lemma accepts_gt [simp]: "accepts (Chr (CHR ''>'')) c \<longleftrightarrow> c = CHR ''>''"
  by (simp add: eq_commute [of "Canonicalize (CHR ''>'')"])
lemma accepts_dq [simp]: "accepts (Chr (CHR 0x22)) c \<longleftrightarrow> c = CHR 0x22"
  by (simp add: eq_commute [of "Canonicalize (CHR 0x22)"])

lemma all_ne_iff: "(\<forall>c \<in> set a. c \<noteq> x) \<longleftrightarrow> x \<notin> set a"
  by auto

lemma spans_lits_append:
  "spans (lits k @ p) u \<longleftrightarrow> (\<exists>x w. u = x @ w \<and> ci_eq x k \<and> spans p w)"
  by (simp add: spans_append spans_lits)

lemma spans_not_gt:
  "spans (Many (Cls True ''>'') # p) u \<longleftrightarrow> (\<exists>a w. u = a @ w \<and> CHR ''>'' \<notin> set a \<and> spans p w)"
  by (simp del: accepts.simps add: all_ne_iff)

lemma spans_not_dq:
  "spans (Many (Cls True [CHR 0x22]) # p) u \<longleftrightarrow>
     (\<exists>a w. u = a @ w \<and> CHR 0x22 \<notin> set a \<and> spans p w)"
  by (simp del: accepts.simps add: all_ne_iff)

lemma spans_chr_lt: "spans (One (Chr (CHR ''<'')) # p) u \<longleftrightarrow> (\<exists>w. u = CHR ''<'' # w \<and> spans p w)"
  by (auto simp del: accepts.simps)

lemma spans_chr_gt: "spans [One (Chr (CHR ''>''))] u \<longleftrightarrow> u = ''>''"
  by (auto simp del: accepts.simps)

lemma spans_chr_dq: "spans [One (Chr (CHR 0x22))] u \<longleftrightarrow> u = [CHR 0x22]"
  by (auto simp del: accepts.simps)

lemmas spans_steps = spans_lits_append spans_not_gt spans_not_dq spans_chr_lt spans_chr_gt spans_chr_dq

lemma spans_tag_items:
  "spans (tag_items v) u \<longleftrightarrow>
     (\<exists>t a. u = ''<'' @ t @ a @ ''>'' \<and> ci_eq t v \<and> CHR ''>'' \<notin> set a)"
  (is "?L \<longleftrightarrow> ?R")
proof
  assume ?L
  then obtain w1 t w2 a w3 where "u = CHR ''<'' # w1" "w1 = t @ w2" "ci_eq t v"
    "w2 = a @ w3" "CHR ''>'' \<notin> set a" "w3 = ''>''"
    unfolding tag_items_def append.simps spans_steps by blast
  then have "u = ''<'' @ t @ a @ ''>''" by simp
  with \<open>ci_eq t v\<close> \<open>CHR ''>'' \<notin> set a\<close> show ?R by blast
next
  assume ?R
  then obtain t a where u: "u = CHR ''<'' # t @ a @ ''>''" and f: "ci_eq t v" "CHR ''>'' \<notin> set a"
    by auto
  have "spans (Many (Cls True ''>'') # [One (Chr (CHR ''>''))]) (a @ ''>'')"
    unfolding spans_not_gt spans_chr_gt using f by blast
  then have "spans (lits v @ [Many (Cls True ''>''), One (Chr (CHR ''>''))]) (t @ a @ ''>'')"
    unfolding spans_lits_append using f by blast
  then show ?L
    unfolding tag_items_def append.simps spans_chr_lt u by blast
qed

lemma spans_id_items:
  \<open>spans (id_items v) u \<longleftrightarrow>
     (\<exists>a k t. u = ''<'' @ a @ k @ t @ ''"'' \<and> CHR ''>'' \<notin> set a \<and> ci_eq k ''id="'' \<and> ci_eq t v)\<close>
  (is "?L \<longleftrightarrow> ?R")
proof
  assume ?L
  then obtain w1 a w2 k w3 t w4 where "u = CHR ''<'' # w1" "w1 = a @ w2" "CHR ''>'' \<notin> set a"
    "w2 = k @ w3" \<open>ci_eq k ''id="''\<close> "w3 = t @ w4" "ci_eq t v" "w4 = [CHR 0x22]"
    unfolding id_items_def append.simps spans_steps by blast
  then have \<open>u = ''<'' @ a @ k @ t @ ''"''\<close> by simp
  with \<open>CHR ''>'' \<notin> set a\<close> \<open>ci_eq k ''id="''\<close> \<open>ci_eq t v\<close> show ?R by blast
next
  assume ?R
  then obtain a k t where u: \<open>u = CHR ''<'' # a @ k @ t @ ''"''\<close>
    and f: "CHR ''>'' \<notin> set a" \<open>ci_eq k ''id="''\<close> "ci_eq t v"
    by auto
  have "spans (lits v @ [One (Chr (CHR 0x22))]) (t @ [CHR 0x22])"
    unfolding spans_lits_append spans_chr_dq using f by blast
  then have \<open>spans (lits ''id="'' @ lits v @ [One (Chr (CHR 0x22))]) (k @ t @ [CHR 0x22])\<close>
    unfolding spans_lits_append [of \<open>''id="''\<close>] using f by blast
  then have \<open>spans (Many (Cls True ''>'') # lits ''id="'' @ lits v @ [One (Chr (CHR 0x22))])
      (a @ k @ t @ [CHR 0x22])\<close>
    unfolding spans_not_gt using f by blast
  then show ?L
    unfolding id_items_def append.simps spans_chr_lt u by simp
qed

lemma spans_class_items:
  \<open>spans (class_items v) u \<longleftrightarrow>
     (\<exists>a k b t c. u = ''<'' @ a @ k @ b @ t @ c @ ''"'' \<and> CHR ''>'' \<notin> set a
        \<and> ci_eq k ''class="'' \<and> CHR 0x22 \<notin> set b \<and> ci_eq t v \<and> CHR 0x22 \<notin> set c)\<close>
  (is "?L \<longleftrightarrow> ?R")
proof
  assume ?L
  then obtain w1 a w2 k w3 b w4 t w5 c w6 where "u = CHR ''<'' # w1" "w1 = a @ w2"
    "CHR ''>'' \<notin> set a" "w2 = k @ w3" \<open>ci_eq k ''class="''\<close> "w3 = b @ w4" "CHR 0x22 \<notin> set b"
    "w4 = t @ w5" "ci_eq t v" "w5 = c @ w6" "CHR 0x22 \<notin> set c" "w6 = [CHR 0x22]"
    unfolding class_items_def append.simps spans_steps by blast
  then have \<open>u = ''<'' @ a @ k @ b @ t @ c @ ''"''\<close> by simp
  with \<open>CHR ''>'' \<notin> set a\<close> \<open>ci_eq k ''class="''\<close> \<open>CHR 0x22 \<notin> set b\<close> \<open>ci_eq t v\<close>
    \<open>CHR 0x22 \<notin> set c\<close>
  show ?R by blast
next
  assume ?R
  then obtain a k b t c where u: \<open>u = CHR ''<'' # a @ k @ b @ t @ c @ ''"''\<close>
    and f: "CHR ''>'' \<notin> set a" \<open>ci_eq k ''class="''\<close> "CHR 0x22 \<notin> set b" "ci_eq t v"
      "CHR 0x22 \<notin> set c"
    by auto
  let ?p5 = "[Many (Cls True [CHR 0x22]), One (Chr (CHR 0x22))]"
  have "spans ?p5 (c @ [CHR 0x22])"
    unfolding spans_not_dq spans_chr_dq using f by blast
  then have "spans (lits v @ ?p5) (t @ c @ [CHR 0x22])"
    unfolding spans_lits_append using f by blast
  then have "spans (Many (Cls True [CHR 0x22]) # lits v @ ?p5) (b @ t @ c @ [CHR 0x22])"
    unfolding spans_not_dq [of "lits v @ ?p5"] using f by blast
  then have \<open>spans (lits ''class="'' @ Many (Cls True [CHR 0x22]) # lits v @ ?p5)
      (k @ b @ t @ c @ [CHR 0x22])\<close>
    unfolding spans_lits_append [of \<open>''class="''\<close>] using f by blast
  then have \<open>spans (Many (Cls True ''>'') # lits ''class="'' @ Many (Cls True [CHR 0x22]) # lits v @ ?p5)
      (a @ k @ b @ t @ c @ [CHR 0x22])\<close>
    unfolding spans_not_gt using f by blast
  then show ?L
    unfolding class_items_def append.simps spans_chr_lt u by simp
qed

lemma test_class_items:
  \<open>test (exec (class_items v)) html \<longleftrightarrow>
     (\<exists>pre a k b t c post. html = pre @ ''<'' @ a @ k @ b @ t @ c @ ''"'' @ post
        \<and> CHR ''>'' \<notin> set a \<and> ci_eq k ''class="'' \<and> CHR 0x22 \<notin> set b \<and> ci_eq t v
        \<and> CHR 0x22 \<notin> set c)\<close>
  (is "?L \<longleftrightarrow> ?R")
proof
  assume ?L
  then obtain pre post a k b t c where \<open>html = pre @ (''<'' @ a @ k @ b @ t @ c @ ''"'') @ post\<close>
    and f: "CHR ''>'' \<notin> set a" \<open>ci_eq k ''class="''\<close> "CHR 0x22 \<notin> set b" "ci_eq t v"
      "CHR 0x22 \<notin> set c"
    unfolding test_exec_iff spans_class_items by blast
  then have \<open>html = pre @ ''<'' @ a @ k @ b @ t @ c @ ''"'' @ post\<close> by simp
  with f show ?R by blast
next
  assume ?R
  then obtain pre post a k b t c where \<open>html = pre @ ''<'' @ a @ k @ b @ t @ c @ ''"'' @ post\<close>
    and f: "CHR ''>'' \<notin> set a" \<open>ci_eq k ''class="''\<close> "CHR 0x22 \<notin> set b" "ci_eq t v"
      "CHR 0x22 \<notin> set c"
    by blast
  then have \<open>html = pre @ (''<'' @ a @ k @ b @ t @ c @ ''"'') @ post\<close> by simp
  with f show ?L unfolding test_exec_iff spans_class_items by blast
qed

lemma test_id_items:
  \<open>test (exec (id_items v)) html \<longleftrightarrow>
     (\<exists>pre a k t post. html = pre @ ''<'' @ a @ k @ t @ ''"'' @ post
        \<and> CHR ''>'' \<notin> set a \<and> ci_eq k ''id="'' \<and> ci_eq t v)\<close>
  (is "?L \<longleftrightarrow> ?R")
proof
  assume ?L
  then obtain pre post a k t where \<open>html = pre @ (''<'' @ a @ k @ t @ ''"'') @ post\<close>
    and f: "CHR ''>'' \<notin> set a" \<open>ci_eq k ''id="''\<close> "ci_eq t v"
    unfolding test_exec_iff spans_id_items by blast
  then have \<open>html = pre @ ''<'' @ a @ k @ t @ ''"'' @ post\<close> by simp
  with f show ?R by blast
next
  assume ?R
  then obtain pre post a k t where \<open>html = pre @ ''<'' @ a @ k @ t @ ''"'' @ post\<close>
    and f: "CHR ''>'' \<notin> set a" \<open>ci_eq k ''id="''\<close> "ci_eq t v"
    by blast
  then have \<open>html = pre @ (''<'' @ a @ k @ t @ ''"'') @ post\<close> by simp
  with f show ?L unfolding test_exec_iff spans_id_items by blast
qed

lemma test_tag_items:
  \<open>test (exec (tag_items v)) html \<longleftrightarrow>
     (\<exists>pre t a post. html = pre @ ''<'' @ t @ a @ ''>'' @ post \<and> ci_eq t v \<and> CHR ''>'' \<notin> set a)\<close>
  (is "?L \<longleftrightarrow> ?R")
proof
  assume ?L
  then obtain pre post t a where \<open>html = pre @ (''<'' @ t @ a @ ''>'') @ post\<close>
    and f: "ci_eq t v" "CHR ''>'' \<notin> set a"
    unfolding test_exec_iff spans_tag_items by blast
  then have \<open>html = pre @ ''<'' @ t @ a @ ''>'' @ post\<close> by simp
  with f show ?R by blast
next
  assume ?R
  then obtain pre post t a where \<open>html = pre @ ''<'' @ t @ a @ ''>'' @ post\<close>
    and f: "ci_eq t v" "CHR ''>'' \<notin> set a"
    by blast
  then have \<open>html = pre @ (''<'' @ t @ a @ ''>'') @ post\<close> by simp
  with f show ?L unfolding test_exec_iff spans_tag_items by blast
qed

lemma element_found_plain:
  assumes "\<forall>c \<in> set v. plain c"
  shows \<open>element_found host html v = Inr
     ((\<exists>pre a k b t c post. html = pre @ ''<'' @ a @ k @ b @ t @ c @ ''"'' @ post
          \<and> CHR ''>'' \<notin> set a \<and> ci_eq k ''class="'' \<and> CHR 0x22 \<notin> set b \<and> ci_eq t v
          \<and> CHR 0x22 \<notin> set c)
      \<or> (\<exists>pre a k t post. html = pre @ ''<'' @ a @ k @ t @ ''"'' @ post
          \<and> CHR ''>'' \<notin> set a \<and> ci_eq k ''id="'' \<and> ci_eq t v)
      \<or> (\<exists>pre t a post. html = pre @ ''<'' @ t @ a @ ''>'' @ post
          \<and> ci_eq t v \<and> CHR ''>'' \<notin> set a))\<close>
  unfolding element_found_def RegExp_i_def parse_classSource [OF assms] parse_idSource [OF assms]
    parse_tagSource [OF assms]
  by (simp only: parsed.case sum.case test_class_items test_id_items test_tag_items)

text \<open>The piece of the subject that one item of a pattern has matched.\<close>

fun fits :: "item \<Rightarrow> string \<Rightarrow> bool" where
  "fits (One a) t = (\<exists>c. t = [c] \<and> accepts a c)"
| "fits (Many a) t = (\<forall>c \<in> set t. accepts a c)"
| "fits Open t = (t = [])"
| "fits Close t = (t = [])"

lemma run_fits: "run p s = Some ts \<Longrightarrow> list_all2 fits p ts"
  by (induction p s arbitrary: ts rule: run.induct)
    (auto split: if_splits option.splits list.splits)

text \<open>The items of the title pattern.\<close>

definition title_items :: "item list" where
  "title_items =
     lits ''<title'' @ [Many (Cls True ''>''), One (Chr (CHR ''>'')), Open, Many (Cls True ''<''), Close]
       @ lits ''</title>''"

lemma parse_titleSource: "parse_pattern titleSource = Parsed title_items"
  by (simp add: parse_pattern_def titleSource_def title_items_def lits_def beyond_outside_def
      beyond_inside_def)

text \<open>
  A title at the start of a string: \<^verbatim>\<open><title\<close>, characters other than \<^verbatim>\<open>>\<close>, a
  \<^verbatim>\<open>>\<close>, a text free of \<^verbatim>\<open><\<close>, and \<^verbatim>\<open></title>\<close>, the letters of the two tags in
  either case.
\<close>

definition title_at :: "string \<Rightarrow> string \<Rightarrow> bool" where
  "title_at s text \<longleftrightarrow>
     (\<exists>tag attrs close post. s = tag @ attrs @ ''>'' @ text @ close @ post
        \<and> ci_eq tag ''<title'' \<and> CHR ''>'' \<notin> set attrs \<and> CHR ''<'' \<notin> set text
        \<and> ci_eq close ''</title>'')"

lemma fits_lits:
  "list_all2 fits (lits w) ts \<longleftrightarrow> (\<exists>u. ts = map (\<lambda>c. [c]) u \<and> ci_eq u w)"
proof (induction w arbitrary: ts)
  case Nil
  then show ?case by (auto simp: lits_def ci_eq_def)
next
  case (Cons x w)
  show ?case
  proof
    assume "list_all2 fits (lits (x # w)) ts"
    then obtain t ts' where ts: "ts = t # ts'" "fits (One (Chr x)) t" "list_all2 fits (lits w) ts'"
      by (auto simp: lits_def list_all2_Cons1)
    then obtain c u where "t = [c]" "accepts (Chr x) c" "ts' = map (\<lambda>c. [c]) u" "ci_eq u w"
      using Cons.IH by auto
    then have "ts = map (\<lambda>c. [c]) (c # u)" "ci_eq (c # u) (x # w)"
      using ts by (auto simp: ci_eq_def)
    then show "\<exists>u. ts = map (\<lambda>c. [c]) u \<and> ci_eq u (x # w)" by blast
  next
    assume "\<exists>u. ts = map (\<lambda>c. [c]) u \<and> ci_eq u (x # w)"
    then obtain u where u: "ts = map (\<lambda>c. [c]) u" "ci_eq u (x # w)" by blast
    then obtain c u' where "u = c # u'" "Canonicalize c = Canonicalize x" "ci_eq u' w"
      by (cases u) (auto simp: ci_eq_def)
    then show "list_all2 fits (lits (x # w)) ts"
      using u Cons.IH [of "map (\<lambda>c. [c]) u'"] by (auto simp: lits_def)
  qed
qed

lemma concat_singletons [simp]: "concat (map (\<lambda>c. [c]) u) = u"
  by (induction u) auto

lemma groups_lits [simp]: "groups (zip (lits w) (map (\<lambda>c. [c]) u) @ r) = groups r"
  by (induction w arbitrary: u) (auto simp: lits_def split: list.splits; (case_tac u; simp))+

lemma ci_eq_length: "ci_eq u w \<Longrightarrow> length u = length w"
  unfolding ci_eq_def by (metis length_map)

lemma mid_shape:
  assumes "list_all2 fits [Many (Cls True ''>''), One (Chr (CHR ''>'')), Open,
              Many (Cls True ''<''), Close] ts2"
  shows "\<exists>attrs cap. ts2 = [attrs, ''>'', [], cap, []] \<and> CHR ''>'' \<notin> set attrs \<and> CHR ''<'' \<notin> set cap"
  using assms by (auto simp: list_all2_Cons1 simp del: accepts.simps)

lemma zip_title:
  assumes "ci_eq tag ''<title''"
  shows "zip title_items (map (\<lambda>c. [c]) tag @ [attrs, ''>'', [], cap, []] @ map (\<lambda>c. [c]) ctag) =
      zip (lits ''<title'') (map (\<lambda>c. [c]) tag)
      @ [(Many (Cls True ''>''), attrs), (One (Chr (CHR ''>'')), ''>''), (Open, []),
         (Many (Cls True ''<''), cap), (Close, [])]
      @ zip (lits ''</title>'') (map (\<lambda>c. [c]) ctag)"
proof -
  have len: "length (lits ''<title'') = length (map (\<lambda>c. [c]) tag)"
    using ci_eq_length [OF assms] by (simp add: lits_def)
  show ?thesis
    unfolding title_items_def by (simp only: zip_append [OF len] zip_Cons_Cons append.simps)
qed

lemma groups_title:
  "groups (zip (lits ''<title'') (map (\<lambda>c. [c]) tag)
      @ [(Many (Cls True ''>''), attrs), (One (Chr (CHR ''>'')), ''>''), (Open, []),
         (Many (Cls True ''<''), cap), (Close, [])]
      @ zip (lits ''</title>'') (map (\<lambda>c. [c]) ctag)) = [cap]"
  by (simp only: groups_lits groups.simps upto_close.simps append.simps if_True append_Nil2
      groups_lits [of "''</title>''" ctag "[]", simplified append_Nil2] refl)

lemma run_title_sound:
  assumes "run title_items s = Some ts"
  shows "\<exists>cap. title_at s cap \<and> groups (zip title_items ts) = [cap]"
proof -
  from run_fits [OF assms] obtain ts1 ts2 ts3 where ts: "ts = ts1 @ ts2 @ ts3"
    and 1: "list_all2 fits (lits ''<title'') ts1"
    and 2: "list_all2 fits [Many (Cls True ''>''), One (Chr (CHR ''>'')), Open,
              Many (Cls True ''<''), Close] ts2"
    and 3: "list_all2 fits (lits ''</title>'') ts3"
    unfolding title_items_def list_all2_append1 by blast
  from 1 obtain tag where tag: "ts1 = map (\<lambda>c. [c]) tag" "ci_eq tag ''<title''"
    unfolding fits_lits by blast
  from 3 obtain ctag where ctag: "ts3 = map (\<lambda>c. [c]) ctag" "ci_eq ctag ''</title>''"
    unfolding fits_lits by blast
  from mid_shape [OF 2] obtain attrs cap where mid: "ts2 = [attrs, ''>'', [], cap, []]"
    "CHR ''>'' \<notin> set attrs" "CHR ''<'' \<notin> set cap"
    by blast
  from run_concat [OF assms] obtain post where "s = concat ts @ post" by blast
  then have s: "s = tag @ attrs @ ''>'' @ cap @ ctag @ post"
    unfolding ts tag ctag mid by simp
  have "groups (zip title_items ts) = [cap]"
    unfolding ts tag(1) ctag(1) mid(1) zip_title [OF tag(2)] groups_title ..
  moreover have "title_at s cap"
    unfolding title_at_def using s tag(2) ctag(2) mid(2,3) by blast
  ultimately show ?thesis by blast
qed

lemma first_split_unique:
  "x \<notin> set a \<Longrightarrow> x \<notin> set a' \<Longrightarrow> a @ x # r = a' @ x # r' \<Longrightarrow> a = a' \<and> r = r'"
proof (induction a arbitrary: a')
  case Nil
  then show ?case by (cases a') auto
next
  case (Cons y a)
  then show ?case by (cases a') auto
qed

lemma ci_eq_Cons:
  "ci_eq u (x # w) \<Longrightarrow> \<exists>c r. u = c # r \<and> Canonicalize c = Canonicalize x \<and> ci_eq r w"
  by (cases u) (simp_all add: ci_eq_def)

lemma title_at_unique:
  assumes "title_at s cap" and "title_at s cap'"
  shows "cap = cap'"
proof -
  from assms(1) obtain tag attrs ctag post where
    s: "s = tag @ attrs @ ''>'' @ cap @ ctag @ post" and tag: "ci_eq tag ''<title''"
    and no: "CHR ''>'' \<notin> set attrs" "CHR ''<'' \<notin> set cap" and ctag: "ci_eq ctag ''</title>''"
    unfolding title_at_def by blast
  from assms(2) obtain tag' attrs' ctag' post' where
    s': "s = tag' @ attrs' @ ''>'' @ cap' @ ctag' @ post'" and tag': "ci_eq tag' ''<title''"
    and no': "CHR ''>'' \<notin> set attrs'" "CHR ''<'' \<notin> set cap'"
    and ctag': "ci_eq ctag' ''</title>''"
    unfolding title_at_def by blast
  have "length tag = length tag'"
    using ci_eq_length [OF tag] ci_eq_length [OF tag'] by simp
  moreover have "tag @ (attrs @ ''>'' @ cap @ ctag @ post) = tag' @ (attrs' @ ''>'' @ cap' @ ctag' @ post')"
    using s s' by simp
  ultimately have "attrs @ CHR ''>'' # (cap @ ctag @ post) = attrs' @ CHR ''>'' # (cap' @ ctag' @ post')"
    using append_eq_append_conv [of tag tag'] by auto
  from first_split_unique [OF no(1) no'(1) this]
  have eq: "cap @ ctag @ post = cap' @ ctag' @ post'" by (rule conjunct2)
  from ci_eq_Cons [OF ctag] obtain r where r: "ctag = CHR ''<'' # r"
    by (metis canon_lt)
  from ci_eq_Cons [OF ctag'] obtain r' where r': "ctag' = CHR ''<'' # r'"
    by (metis canon_lt)
  from eq have "cap @ CHR ''<'' # (r @ post) = cap' @ CHR ''<'' # (r' @ post')"
    unfolding r r' by simp
  from first_split_unique [OF no(2) no'(2) this] show ?thesis by (rule conjunct1)
qed

lemma title_at_spans: "title_at s cap \<Longrightarrow> run title_items s \<noteq> None"
proof -
  assume "title_at s cap"
  then obtain tag attrs ctag post where
    s: "s = tag @ attrs @ ''>'' @ cap @ ctag @ post" and tag: "ci_eq tag ''<title''"
    and no: "CHR ''>'' \<notin> set attrs" "CHR ''<'' \<notin> set cap" and ctag: "ci_eq ctag ''</title>''"
    unfolding title_at_def by blast
  have "spans (Many (Cls True ''<'') # Close # lits ''</title>'') (cap @ ctag)"
    using no ctag by (auto simp: spans_lits simp del: accepts.simps)
  then have "spans (One (Chr (CHR ''>'')) # Open # Many (Cls True ''<'') # Close # lits ''</title>'')
      (''>'' @ cap @ ctag)"
    by (simp del: accepts.simps spans.simps(3) add: spans.simps(2) accepts_gt)
  then have "spans (Many (Cls True ''>'')
                # One (Chr (CHR ''>'')) # Open # Many (Cls True ''<'') # Close # lits ''</title>'')
      (attrs @ ''>'' @ cap @ ctag)"
    unfolding spans_not_gt using no by blast
  then have "spans title_items (tag @ attrs @ ''>'' @ cap @ ctag)"
    unfolding title_items_def append.simps spans_lits_append using tag by blast
  from spans_run [OF this, of post] show ?thesis using s by simp
qed

lemma run_title_iff: "run title_items s \<noteq> None \<longleftrightarrow> (\<exists>cap. title_at s cap)"
  using run_title_sound title_at_spans by blast

lemma run_title_capture:
  assumes "title_at s cap"
  shows "\<exists>ts. run title_items s = Some ts \<and> groups (zip title_items ts) = [cap]"
proof -
  from title_at_spans [OF assms] obtain ts where ts: "run title_items s = Some ts" by auto
  from run_title_sound [OF ts] obtain cap' where "title_at s cap'"
    "groups (zip title_items ts) = [cap']" by blast
  with title_at_unique [OF assms] ts show ?thesis by auto
qed

lemma exec_None_iff: "exec p s = None \<longleftrightarrow> (\<forall>pre rest. s = pre @ rest \<longrightarrow> run p rest = None)"
proof -
  have "exec p s = None \<longleftrightarrow> \<not> exec p s \<noteq> None"
    by (simp only: not_not)
  also have "\<dots> \<longleftrightarrow> \<not> (\<exists>pre rest. s = pre @ rest \<and> run p rest \<noteq> None)"
    by (simp only: exec_iff_run)
  also have "\<dots> \<longleftrightarrow> (\<forall>pre rest. s = pre @ rest \<longrightarrow> run p rest = None)"
    by (simp only: not_ex not_not de_Morgan_conj imp_conv_disj)
  finally show ?thesis .
qed

lemma exec_first:
  assumes "exec p s = Some m"
  shows "\<exists>pre rest ts. s = pre @ rest \<and> run p rest = Some ts \<and> m = concat ts # groups (zip p ts)
           \<and> (\<forall>pre' rest'. s = pre' @ rest' \<and> length pre' < length pre \<longrightarrow> run p rest' = None)"
  using assms
proof (induction s)
  case Nil
  then obtain ts where "run p [] = Some ts" "m = concat ts # groups (zip p ts)"
    by (auto split: option.splits)
  then show ?case by (intro exI [of _ "[]"] exI [of _ "[]"] exI [of _ ts]) simp
next
  case (Cons c s)
  show ?case
  proof (cases "run p (c # s)")
    case (Some ts)
    with Cons.prems have "m = concat ts # groups (zip p ts)" by simp
    with Some show ?thesis by (intro exI [of _ "[]"] exI [of _ "c # s"] exI [of _ ts]) simp
  next
    case None
    with Cons.prems have "exec p s = Some m" by simp
    from Cons.IH [OF this] obtain pre rest ts where IH: "s = pre @ rest" "run p rest = Some ts"
      "m = concat ts # groups (zip p ts)"
      "\<forall>pre' rest'. s = pre' @ rest' \<and> length pre' < length pre \<longrightarrow> run p rest' = None"
      by blast
    have "run p rest' = None" if "c # s = pre' @ rest'" "length pre' < length (c # pre)" for pre' rest'
    proof (cases pre')
      case Nil
      with that None show ?thesis by simp
    next
      case (Cons x q)
      with that have "s = q @ rest'" "length q < length pre" by auto
      with IH(4) show ?thesis by blast
    qed
    with IH(1-3) show ?thesis
      by (intro exI [of _ "c # pre"] exI [of _ rest] exI [of _ ts]) auto
  qed
qed

text \<open>The text of the first title of a body: no title starts further to the left.\<close>

definition first_title :: "string \<Rightarrow> string \<Rightarrow> bool" where
  "first_title html cap \<longleftrightarrow>
     (\<exists>pre rest. html = pre @ rest \<and> title_at rest cap
        \<and> (\<forall>pre' rest' cap'. html = pre' @ rest' \<and> length pre' < length pre \<longrightarrow> \<not> title_at rest' cap'))"

lemma first_title_unique:
  assumes "first_title html cap" and "first_title html cap'"
  shows "cap = cap'"
proof -
  from assms(1) obtain pre rest where 1: "html = pre @ rest" "title_at rest cap"
    "\<forall>pre' rest' cap'. html = pre' @ rest' \<and> length pre' < length pre \<longrightarrow> \<not> title_at rest' cap'"
    unfolding first_title_def by blast
  from assms(2) obtain pre2 rest2 where 2: "html = pre2 @ rest2" "title_at rest2 cap'"
    "\<forall>pre' rest' cap'. html = pre' @ rest' \<and> length pre' < length pre2 \<longrightarrow> \<not> title_at rest' cap'"
    unfolding first_title_def by blast
  have "\<not> length pre2 < length pre" using 1(3) 2(1,2) by blast
  moreover have "\<not> length pre < length pre2" using 2(3) 1(1,2) by blast
  ultimately have "length pre = length pre2" by simp
  with 1(1) 2(1) have "rest = rest2" by (metis append_eq_append_conv)
  with 1(2) 2(2) show ?thesis using title_at_unique by blast
qed

lemma title_found_iff:
  "title_found host html v = Inr (\<exists>cap. first_title html cap \<and> str_includes cap v)"
proof (cases "exec title_items html")
  case None
  then have "\<forall>pre rest. html = pre @ rest \<longrightarrow> run title_items rest = None"
    unfolding exec_None_iff .
  then have "\<forall>pre rest cap. html = pre @ rest \<longrightarrow> \<not> title_at rest cap"
    using run_title_iff by blast
  then have "\<not> (\<exists>cap. first_title html cap)"
    unfolding first_title_def by blast
  then have "\<not> (\<exists>cap. first_title html cap \<and> str_includes cap v)" by blast
  with None show ?thesis
    by (simp add: title_found_def RegExp_i_def parse_titleSource match_def)
next
  case (Some m)
  from exec_first [OF Some] obtain pre rest ts where m: "html = pre @ rest"
    "run title_items rest = Some ts" "m = concat ts # groups (zip title_items ts)"
    "\<forall>pre' rest'. html = pre' @ rest' \<and> length pre' < length pre \<longrightarrow> run title_items rest' = None"
    by blast
  from run_title_sound [OF m(2)] obtain cap where cap: "title_at rest cap"
    "groups (zip title_items ts) = [cap]" by blast
  have "\<forall>pre' rest' cap'. html = pre' @ rest' \<and> length pre' < length pre \<longrightarrow> \<not> title_at rest' cap'"
    using m(4) run_title_iff by blast
  with m(1) cap(1) have first: "first_title html cap"
    unfolding first_title_def by blast
  then have "(\<exists>cap'. first_title html cap' \<and> str_includes cap' v) \<longleftrightarrow> str_includes cap v"
    using first_title_unique by blast
  with Some m(3) cap(2) show ?thesis
    by (simp add: title_found_def RegExp_i_def parse_titleSource match_def)
qed

section \<open>Reasoning about the harness\<close>

text \<open>The line that \<^verbatim>\<open>runTest\<close> prints for an outcome.\<close>

definition outcome_line :: "outcome \<Rightarrow> line" where
  "outcome_line r =
     (if found r then Found (check_value (check r)) (check_type (check r))
      else Missing (check_value (check r)) (check_type (check r)))"

lemma report_eq:
  "report rs ap h =
     (ap \<and> (\<forall>r \<in> set rs. found r), h\<lparr>console := console h @ map outcome_line rs\<rparr>)"
  by (induction rs arbitrary: ap h) (auto simp: log_def outcome_line_def)

text \<open>What a check evaluates to, false standing in where its evaluation throws.\<close>

definition found_or_false :: "engine \<Rightarrow> string \<Rightarrow> check \<Rightarrow> bool" where
  "found_or_false host html c = (case check_found host html c of Inl e \<Rightarrow> False | Inr b \<Rightarrow> b)"

lemma checkContent_loop_returns:
  assumes "\<forall>c \<in> set cs. \<exists>b. check_found host html c = Inr b"
  shows "checkContent_loop host html cs acc =
           Inr (acc @ map (\<lambda>c. \<lparr>check = c, found = found_or_false host html c\<rparr>) cs)"
  using assms by (induction cs arbitrary: acc) (auto simp: found_or_false_def)

lemma checkContent_loop_raises:
  assumes "\<exists>c \<in> set cs. \<exists>e. check_found host html c = Inl e"
  shows "\<exists>e. checkContent_loop host html cs acc = Inl e"
  using assms
proof (induction cs arbitrary: acc)
  case Nil
  then show ?case by simp
next
  case (Cons c cs)
  show ?case
  proof (cases "check_found host html c")
    case (Inl e)
    then show ?thesis by simp
  next
    case (Inr b)
    with Cons.prems have "\<exists>c \<in> set cs. \<exists>e. check_found host html c = Inl e" by auto
    from Cons.IH [OF this] Inr show ?thesis by simp
  qed
qed

lemma checkContent_loop_checks:
  "checkContent_loop host html cs acc = Inr rs \<Longrightarrow> map check rs = map check acc @ cs"
  by (induction cs arbitrary: acc) (auto split: sum.splits)

lemma checkContent_returns:
  assumes "\<forall>c \<in> set cs. \<exists>b. check_found host html c = Inr b"
  shows "checkContent host html cs =
           Inr (map (\<lambda>c. \<lparr>check = c, found = found_or_false host html c\<rparr>) cs)"
  using checkContent_loop_returns [OF assms, of "[]"] by (simp add: checkContent_def)

lemma checkContent_raises:
  assumes "\<exists>c \<in> set cs. \<exists>e. check_found host html c = Inl e"
  shows "\<exists>e. checkContent host html cs = Inl e"
  using checkContent_loop_raises [OF assms, of "[]"] by (simp add: checkContent_def)

text \<open>The lines of a test up to the evaluation of its checks, for a response with status 200.\<close>

definition first_lines :: "test_case \<Rightarrow> response \<Rightarrow> line list" where
  "first_lines t r =
     [Testing (name t), Url (url t), Status_ok 200]
       @ (if str_includes (url t) ''.json'' then [Content_type (content_type (headers r))] else [])"

lemma runTest_200:
  assumes "settle (net (length (sent h))) = Resolved r" and "status r = 200"
  shows "runTest host net t h =
     (case checkContent host (data r) (checks t) of
        Inl error \<Rightarrow>
          (Some False,
           h\<lparr>console := console h @ first_lines t r @ [Caught error], sent := sent h @ [url t]\<rparr>)
      | Inr results \<Rightarrow>
          (Some (\<forall>x \<in> set results. found x),
           h\<lparr>console := console h @ first_lines t r @ map outcome_line results
                  @ [if \<forall>x \<in> set results. found x then PASSED (name t) else PARTIAL_PASS (name t)],
             sent := sent h @ [url t]\<rparr>))"
  using assms
  by (cases h)
    (simp add: runTest_def makeRequest_def log_def Let_def report_eq first_lines_def split: sum.splits)

lemma runTest_not_200:
  assumes "settle (net (length (sent h))) = Resolved r" and "status r \<noteq> 200"
  shows "runTest host net t h =
     (Some False,
      h\<lparr>console := console h @ [Testing (name t), Url (url t), Status_failed (status r)],
        sent := sent h @ [url t]\<rparr>)"
  using assms by (simp add: runTest_def makeRequest_def log_def Let_def)

lemma runTest_rejected:
  assumes "settle (net (length (sent h))) = Rejected e"
  shows "runTest host net t h =
     (Some False,
      h\<lparr>console := console h @ [Testing (name t), Url (url t), Caught e],
        sent := sent h @ [url t]\<rparr>)"
  using assms by (simp add: runTest_def makeRequest_def log_def Let_def)

lemma runTest_pending:
  assumes "settle (net (length (sent h))) = Pending"
  shows "runTest host net t h =
     (None, h\<lparr>console := console h @ [Testing (name t), Url (url t)], sent := sent h @ [url t]\<rparr>)"
  using assms by (simp add: runTest_def makeRequest_def log_def Let_def)

lemma runTest_sent: "sent (snd (runTest host net t h)) = sent h @ [url t]"
proof (cases "settle (net (length (sent h)))")
  case (Resolved r)
  show ?thesis
  proof (cases "status r = 200")
    case True
    show ?thesis
      by (simp add: runTest_200 [where net = net and h = h and r = r, OF Resolved True]
          split: sum.splits)
  next
    case False
    show ?thesis
      by (simp add: runTest_not_200 [where net = net and h = h and r = r, OF Resolved False])
  qed
next
  case (Rejected e)
  show ?thesis by (simp add: runTest_rejected [where net = net and h = h, OF Rejected])
next
  case Pending
  show ?thesis by (simp add: runTest_pending [where net = net and h = h, OF Pending])
qed

lemma runTest_returns:
  "fst (runTest host net t h) = None \<longleftrightarrow> settle (net (length (sent h))) = Pending"
proof (cases "settle (net (length (sent h)))")
  case (Resolved r)
  show ?thesis
  proof (cases "status r = 200")
    case True
    show ?thesis
      by (cases "checkContent host (data r) (checks t)")
        (simp_all add: runTest_200 [where net = net and h = h and r = r, OF Resolved True] Resolved)
  next
    case False
    show ?thesis
      by (simp add: runTest_not_200 [where net = net and h = h and r = r, OF Resolved False]
          Resolved)
  qed
next
  case (Rejected e)
  show ?thesis by (simp add: runTest_rejected [where net = net and h = h, OF Rejected] Rejected)
next
  case Pending
  show ?thesis by (simp add: runTest_pending [where net = net and h = h, OF Pending] Pending)
qed

lemma run_tests_step:
  "runTest host net t h = (Some result, h') \<Longrightarrow>
     run_tests host net (t # ts) passed h
       = run_tests host net ts (if result then passed + 1 else passed) h'"
  by simp

lemma run_tests_stops:
  "runTest host net t h = (None, h') \<Longrightarrow> run_tests host net (t # ts) passed h = (None, h')"
  by simp

lemma run_tests_all:
  assumes "\<forall>n. settle (net n) \<noteq> Pending"
  shows "fst (run_tests host net ts passed h) \<noteq> None
         \<and> sent (snd (run_tests host net ts passed h)) = sent h @ map url ts"
proof (induction ts arbitrary: passed h)
  case Nil
  show ?case by simp
next
  case (Cons t ts)
  from assms runTest_returns [of host net t h] obtain result h'
    where rt: "runTest host net t h = (Some result, h')"
    by (cases "runTest host net t h") auto
  from runTest_sent [of host net t h] rt have "sent h' = sent h @ [url t]" by simp
  with Cons.IH [where passed = "if result then passed + 1 else passed" and h = h'] rt show ?case by simp
qed

lemma runTest_console:
  "\<exists>ls. console (snd (runTest host net t h)) = console h @ [Testing (name t), Url (url t)] @ ls"
proof (cases "settle (net (length (sent h)))")
  case (Resolved r)
  show ?thesis
  proof (cases "status r = 200")
    case True
    show ?thesis
      by (cases "checkContent host (data r) (checks t)")
        (simp_all add: runTest_200 [where net = net and h = h and r = r, OF Resolved True]
          first_lines_def)
  next
    case False
    show ?thesis
      by (simp add: runTest_not_200 [where net = net and h = h and r = r, OF Resolved False])
  qed
next
  case (Rejected e)
  show ?thesis by (simp add: runTest_rejected [where net = net and h = h, OF Rejected])
next
  case Pending
  show ?thesis by (simp add: runTest_pending [where net = net and h = h, OF Pending])
qed

lemma run_tests_grows:
  "prefix (console h) (console (snd (run_tests host net ts passed h)))
   \<and> prefix (sent h) (sent (snd (run_tests host net ts passed h)))"
proof (induction ts arbitrary: passed h)
  case Nil
  show ?case by simp
next
  case (Cons t ts)
  obtain res h' where rt: "runTest host net t h = (res, h')" by (cases "runTest host net t h")
  from runTest_console [of host net t h] rt obtain ls
    where c: "console h' = console h @ [Testing (name t), Url (url t)] @ ls" by auto
  from runTest_sent [of host net t h] rt have s: "sent h' = sent h @ [url t]" by simp
  show ?case
  proof (cases res)
    case None
    with rt c s show ?thesis by simp
  next
    case (Some result)
    from Cons.IH [where passed = "if result then passed + 1 else passed" and h = h']
    have "prefix (console h') (console (snd (run_tests host net (t # ts) passed h)))"
      and "prefix (sent h') (sent (snd (run_tests host net (t # ts) passed h)))"
      using rt Some by simp_all
    then show ?thesis
      unfolding c s by (meson append_prefixD)
  qed
qed

lemma run_tests_starts:
  "prefix (console h @ [Testing (name t), Url (url t)])
     (console (snd (run_tests host net (t # ts) passed h)))
   \<and> prefix (sent h @ [url t]) (sent (snd (run_tests host net (t # ts) passed h)))"
proof -
  obtain res h' where rt: "runTest host net t h = (res, h')" by (cases "runTest host net t h")
  from runTest_console [of host net t h] rt obtain ls
    where c: "console h' = (console h @ [Testing (name t), Url (url t)]) @ ls" by auto
  from runTest_sent [of host net t h] rt have s: "sent h' = sent h @ [url t]" by simp
  show ?thesis
  proof (cases res)
    case None
    with rt c s show ?thesis by simp
  next
    case (Some result)
    from run_tests_grows [where h = h' and host = host and net = net and ts = ts
        and passed = "if result then passed + 1 else passed"]
    have "prefix (console h') (console (snd (run_tests host net (t # ts) passed h)))"
      and "prefix (sent h') (sent (snd (run_tests host net (t # ts) passed h)))"
      using rt Some by simp_all
    then show ?thesis
      unfolding c s by (meson append_prefixD)
  qed
qed

section \<open>Inputs for the examples\<close>

text \<open>
  An engine that refuses every source it is asked about (the examples below stay inside
  the modelled fragment and never ask it). Networks: one on which every request is
  refused, one on which every request times out, one that answers every request with
  the same status and body, one on which every response is cut off before its end, and
  one that treats the first request in one way and the later ones in another. The
  harness before its first line, and a test of the root path.
\<close>

definition refusing_engine :: engine where
  "refusing_engine src = Inl (SyntaxError src)"

definition unreachable :: network where
  "unreachable n = Failure ''connect ECONNREFUSED 127.0.0.1:3000''"

definition idle :: network where
  "idle n = Idle"

definition serves :: "int \<Rightarrow> string \<Rightarrow> network" where
  "serves code body n = Answer \<lparr>status = code, data = body, headers = []\<rparr>"

definition cut_off :: network where
  "cut_off n = Unfinished"

definition first_then :: "net_event \<Rightarrow> network \<Rightarrow> network" where
  "first_then e net n = (if n = 0 then e else net n)"

definition fresh :: harness where
  "fresh = \<lparr>console = [], sent = []\<rparr>"

definition probe_case :: "check list \<Rightarrow> test_case" where
  "probe_case cs = \<lparr>name = ''Probe'', url = ''http://localhost:3000/'', checks = cs\<rparr>"

definition second_case :: test_case where
  "second_case = \<lparr>name = ''Second'', url = ''http://localhost:3000/second.html'', checks = []\<rparr>"

section \<open>The preflight probe\<close>

text \<open>
  C5. When the probe of the root path fails (the request is refused or times out), the
  harness prints the banner, the line that announces the probe, the line that says the
  server is not running and the two lines on how to start it, and nothing else: it
  sends no request but the probe, runs no test, and prints no verdict of a test.
\<close>

theorem preflight_failure:
  assumes "net 0 = Failure m \<or> net 0 = Idle"
  shows "main host net =
           \<lparr>console = [Banner, Checking_server, Server_not_running, Hint_python, Hint_npm],
            sent = [''http://localhost:3000/'']\<rparr>
         \<and> (\<forall>l \<in> set (console (main host net)). verdict_of l = None \<and> (\<forall>n. l \<noteq> Testing n))"
  using assms by (auto simp: main_def makeRequest_def log_def)

theorem preflight_failure_witness:
  "(unreachable 0 = Failure ''connect ECONNREFUSED 127.0.0.1:3000'' \<or> unreachable 0 = Idle) \<and>
   main refusing_engine unreachable =
     \<lparr>console = [Banner, Checking_server, Server_not_running, Hint_python, Hint_npm],
      sent = [''http://localhost:3000/'']\<rparr>"
  using preflight_failure [of unreachable "''connect ECONNREFUSED 127.0.0.1:3000''" refusing_engine]
  by (simp add: unreachable_def)

section \<open>Responses other than 200\<close>

text \<open>
  C6. When the response to the request of a test has a status other than 200:
  \<^item> the test prints its name, its URL and the line of the failed status with that
    status, has sent its one request, and returns false;
  \<^item> its checks play no part: the result is the same for any list of checks, also one
    whose evaluation would throw;
  \<^item> the verdict is "failed";
  \<^item> the loop of the run goes on in the state the test left, the count of passed tests
    unchanged: the test that follows is run next (its name and URL are printed right
    after the line of the failed status, and its request is the next request sent); and
    on a network that settles every request the loop runs every test that follows, one
    request each, and comes to its end.
\<close>

theorem non_200_response:
  assumes "settle (net (length (sent h))) = Resolved r" and "status r \<noteq> 200"
  shows
    "(let h1 = h\<lparr>console := console h @ [Testing (name t), Url (url t), Status_failed (status r)],
                  sent := sent h @ [url t]\<rparr>
      in runTest host net t h = (Some False, h1)
         \<and> runTest host net (t\<lparr>checks := cs\<rparr>) h = runTest host net t h
         \<and> verdict host net t h = Some Failed
         \<and> run_tests host net (t # ts) passed h = run_tests host net ts passed h1
         \<and> run_tests host net (t # t' # ts) passed h =
             (case runTest host net t' h1 of
                (None, h2) \<Rightarrow> (None, h2)
              | (Some result, h2) \<Rightarrow>
                  run_tests host net ts (if result then passed + 1 else passed) h2)
         \<and> prefix (console h1 @ [Testing (name t'), Url (url t')])
               (console (snd (run_tests host net (t # t' # ts) passed h)))
         \<and> prefix (sent h @ [url t, url t'])
               (sent (snd (run_tests host net (t # t' # ts) passed h)))
         \<and> ((\<forall>n. settle (net n) \<noteq> Pending) \<longrightarrow>
               fst (run_tests host net (t # ts) passed h) \<noteq> None
               \<and> sent (snd (run_tests host net (t # ts) passed h)) = sent h @ url t # map url ts))"
proof -
  define h1 where
    "h1 = h\<lparr>console := console h @ [Testing (name t), Url (url t), Status_failed (status r)],
            sent := sent h @ [url t]\<rparr>"
  have rt: "runTest host net t h = (Some False, h1)"
    unfolding h1_def by (rule runTest_not_200 [where net = net and h = h and r = r, OF assms])
  have rt': "runTest host net (t\<lparr>checks := cs\<rparr>) h = (Some False, h1)"
    unfolding h1_def
    using runTest_not_200 [where net = net and h = h and r = r and t = "t\<lparr>checks := cs\<rparr>", OF assms]
    by simp
  have v: "verdict host net t h = Some Failed"
    by (simp add: verdict_def rt h1_def)
  have step: "run_tests host net (t # ts) passed h = run_tests host net ts passed h1" for ts
    using run_tests_step [OF rt, of ts passed] by simp
  have next_run: "run_tests host net (t # t' # ts) passed h =
             (case runTest host net t' h1 of
                (None, h2) \<Rightarrow> (None, h2)
              | (Some result, h2) \<Rightarrow>
                  run_tests host net ts (if result then passed + 1 else passed) h2)"
    unfolding step by simp
  have starts: "prefix (console h1 @ [Testing (name t'), Url (url t')])
               (console (snd (run_tests host net (t # t' # ts) passed h)))"
    "prefix (sent h @ [url t, url t'])
               (sent (snd (run_tests host net (t # t' # ts) passed h)))"
    unfolding step using run_tests_starts [of h1 t' host net ts passed]
    by (simp_all add: h1_def)
  have all: "fst (run_tests host net (t # ts) passed h) \<noteq> None
               \<and> sent (snd (run_tests host net (t # ts) passed h)) = sent h @ url t # map url ts"
    if "\<forall>n. settle (net n) \<noteq> Pending"
    using run_tests_all [OF that, of host "t # ts" passed h] by simp
  from rt rt' v step next_run starts all show ?thesis
    unfolding Let_def h1_def [symmetric] by simp
qed

theorem non_200_response_witness:
  "settle (serves 404 [] (length (sent fresh))) = Resolved \<lparr>status = 404, data = [], headers = []\<rparr>
   \<and> status \<lparr>status = 404, data = [], headers = []\<rparr> \<noteq> 200
   \<and> runTest refusing_engine (serves 404 []) (probe_case [mk_check ''element'' ''('']) fresh =
       (Some False,
        \<lparr>console = [Testing ''Probe'', Url ''http://localhost:3000/'', Status_failed 404],
         sent = [''http://localhost:3000/'']\<rparr>)
   \<and> verdict refusing_engine (serves 404 []) (probe_case [mk_check ''element'' ''('']) fresh
       = Some Failed
   \<and> run_tests refusing_engine (serves 404 [])
         [probe_case [mk_check ''element'' ''(''], second_case] 0 fresh =
       (Some 0,
        \<lparr>console = [Testing ''Probe'', Url ''http://localhost:3000/'', Status_failed 404,
                     Testing ''Second'', Url ''http://localhost:3000/second.html'', Status_failed 404],
         sent = [''http://localhost:3000/'', ''http://localhost:3000/second.html'']\<rparr>)"
proof -
  let ?r = "\<lparr>status = 404, data = [], headers = []\<rparr>"
  let ?t = "probe_case [mk_check ''element'' ''('']"
  have a: "settle (serves 404 [] (length (sent fresh))) = Resolved ?r"
    by (simp add: serves_def)
  have b: "status ?r \<noteq> 200" by simp
  have c: "settle (serves 404 [] (length (sent h))) = Resolved ?r" for h
    by (simp add: serves_def)
  note first = non_200_response [where net = "serves 404 []" and h = fresh and r = ?r
      and host = refusing_engine and t = ?t and ts = "[second_case]" and passed = 0, OF a b]
  let ?h1 = "fresh\<lparr>console := console fresh @ [Testing (name ?t), Url (url ?t), Status_failed (status ?r)],
                  sent := sent fresh @ [url ?t]\<rparr>"
  note second = non_200_response [where net = "serves 404 []" and h = ?h1 and r = ?r
      and host = refusing_engine and t = second_case and ts = "[]" and passed = 0, OF c b]
  from first second a b show ?thesis
    by (simp add: Let_def fresh_def probe_case_def second_case_def)
qed

section \<open>Requests that fail\<close>

text \<open>
  What the harness does when the promise of a request is rejected. An error of the
  request rejects it, and so does a silence of the socket that lasts 10000 ms or more
  (with \<^verbatim>\<open>new Error('Request timeout')\<close>), whatever happens after it; a shorter silence
  does not. The test then prints its name, its URL and the message of the error, has
  sent its one request, and returns false; the verdict is "failed"; and the loop of the
  run goes on with the test that follows, as it does after a response other than 200.
\<close>

lemma settle_rejects:
  "settle (Failure m) = Rejected (Error m)"
  "settle Idle = Rejected (Error ''Request timeout'')"
  "10000 \<le> ms \<Longrightarrow> settle (After ms e) = Rejected (Error ''Request timeout'')"
  "ms < 10000 \<Longrightarrow> settle (After ms e) = settle e"
  by simp_all

lemma request_rejected:
  assumes "settle (net (length (sent h))) = Rejected e"
  shows
    "(let h1 = h\<lparr>console := console h @ [Testing (name t), Url (url t), Caught e],
                  sent := sent h @ [url t]\<rparr>
      in runTest host net t h = (Some False, h1)
         \<and> verdict host net t h = Some Failed
         \<and> run_tests host net (t # ts) passed h = run_tests host net ts passed h1
         \<and> prefix (console h1 @ [Testing (name t'), Url (url t')])
               (console (snd (run_tests host net (t # t' # ts) passed h)))
         \<and> prefix (sent h @ [url t, url t'])
               (sent (snd (run_tests host net (t # t' # ts) passed h)))
         \<and> ((\<forall>n. settle (net n) \<noteq> Pending) \<longrightarrow>
               fst (run_tests host net (t # ts) passed h) \<noteq> None
               \<and> sent (snd (run_tests host net (t # ts) passed h)) = sent h @ url t # map url ts))"
proof -
  define h1 where
    "h1 = h\<lparr>console := console h @ [Testing (name t), Url (url t), Caught e],
            sent := sent h @ [url t]\<rparr>"
  have rt: "runTest host net t h = (Some False, h1)"
    unfolding h1_def by (rule runTest_rejected [where net = net and h = h, OF assms])
  have v: "verdict host net t h = Some Failed"
    by (simp add: verdict_def rt h1_def)
  have step: "run_tests host net (t # ts) passed h = run_tests host net ts passed h1" for ts
    using run_tests_step [OF rt, of ts passed] by simp
  have starts: "prefix (console h1 @ [Testing (name t'), Url (url t')])
               (console (snd (run_tests host net (t # t' # ts) passed h)))"
    "prefix (sent h @ [url t, url t'])
               (sent (snd (run_tests host net (t # t' # ts) passed h)))"
    unfolding step using run_tests_starts [of h1 t' host net ts passed]
    by (simp_all add: h1_def)
  have all: "fst (run_tests host net (t # ts) passed h) \<noteq> None
               \<and> sent (snd (run_tests host net (t # ts) passed h)) = sent h @ url t # map url ts"
    if "\<forall>n. settle (net n) \<noteq> Pending"
    using run_tests_all [OF that, of host "t # ts" passed h] by simp
  from rt v step starts all show ?thesis
    unfolding Let_def h1_def [symmetric] by simp
qed

text \<open>
  C7. The claim holds for the errors that reject the promise, and fails on the code for
  a response that is cut off. At the input below every response starts and the
  connection closes before its end: the promise of the request stays pending, the test
  prints its name and its URL and no line of a failure, it has no verdict, the test
  after it is never run, and the run prints no summary.
\<close>

theorem response_cut_off:
  "settle (cut_off 0) = Pending
   \<and> runTest refusing_engine cut_off (probe_case []) fresh =
       (None, \<lparr>console = [Testing ''Probe'', Url ''http://localhost:3000/''],
               sent = [''http://localhost:3000/'']\<rparr>)
   \<and> verdict refusing_engine cut_off (probe_case []) fresh = None
   \<and> run_tests refusing_engine cut_off [probe_case [], second_case] 0 fresh =
       (None, \<lparr>console = [Testing ''Probe'', Url ''http://localhost:3000/''],
               sent = [''http://localhost:3000/'']\<rparr>)
   \<and> main refusing_engine (first_then (Answer \<lparr>status = 200, data = [], headers = []\<rparr>) cut_off) =
       \<lparr>console = [Banner, Checking_server, Server_running, Starting,
                    Testing ''Homepage Complete Test'', Url ''http://localhost:3000/''],
        sent = [''http://localhost:3000/'', ''http://localhost:3000/'']\<rparr>"
proof -
  have p: "settle (cut_off n) = Pending" for n by (simp add: cut_off_def)
  have 1: "runTest refusing_engine cut_off (probe_case []) fresh =
       (None, \<lparr>console = [Testing ''Probe'', Url ''http://localhost:3000/''],
               sent = [''http://localhost:3000/'']\<rparr>)"
    by (simp add: runTest_pending [where net = cut_off, OF p] fresh_def probe_case_def)
  have 2: "verdict refusing_engine cut_off (probe_case []) fresh = None"
    by (simp add: verdict_def 1)
  have 3: "run_tests refusing_engine cut_off [probe_case [], second_case] 0 fresh =
       (None, \<lparr>console = [Testing ''Probe'', Url ''http://localhost:3000/''],
               sent = [''http://localhost:3000/'']\<rparr>)"
    by (simp add: 1)
  let ?net = "first_then (Answer \<lparr>status = 200, data = [], headers = []\<rparr>) cut_off"
  let ?h = "\<lparr>console = [Banner, Checking_server, Server_running, Starting],
             sent = [''http://localhost:3000/'']\<rparr>"
  have q: "settle (?net (length (sent ?h))) = Pending"
    by (simp add: first_then_def cut_off_def)
  have 4: "main refusing_engine ?net =
       \<lparr>console = [Banner, Checking_server, Server_running, Starting,
                    Testing ''Homepage Complete Test'', Url ''http://localhost:3000/''],
        sent = [''http://localhost:3000/'', ''http://localhost:3000/'']\<rparr>"
    using runTest_pending [where net = ?net and h = ?h and host = refusing_engine
        and t = "hd tests", OF q]
    by (simp add: main_def makeRequest_def first_then_def log_def runAllTests_def tests_def)
  from p 1 2 3 4 show ?thesis by simp
qed

section \<open>The verdict of a test\<close>

lemma element_paren:
  \<open>check_found host html (mk_check ''element'' ''('') = Inl (SyntaxError ''<[^>]*class="[^"]*([^"]*"'')\<close>
  by (simp add: check_found_def mk_check_def element_found_def RegExp_i_def parse_pattern_def
      classSource_def beyond_outside_def beyond_inside_def)

lemma last_console:
  "last (console (h\<lparr>console := console h @ ls @ [l], sent := s\<rparr>)) = l"
  by simp

lemma verdict_passed:
  assumes "settle (net (length (sent h))) = Resolved r" and "status r = 200"
    and "\<forall>c \<in> set (checks t). check_found host (data r) c = Inr True"
  shows "fst (runTest host net t h) = Some True
         \<and> last (console (snd (runTest host net t h))) = PASSED (name t)"
proof -
  have "\<forall>c \<in> set (checks t). \<exists>b. check_found host (data r) c = Inr b"
    using assms(3) by blast
  note cc = checkContent_returns [OF this]
  have "\<forall>c \<in> set (checks t). found_or_false host (data r) c"
    using assms(3) by (simp add: found_or_false_def)
  then show ?thesis
    by (simp add: runTest_200 [where net = net and h = h and r = r, OF assms(1,2)] cc)
qed

lemma verdict_partial:
  assumes "settle (net (length (sent h))) = Resolved r" and "status r = 200"
    and "\<forall>c \<in> set (checks t). \<exists>b. check_found host (data r) c = Inr b"
    and "\<exists>c \<in> set (checks t). check_found host (data r) c = Inr False"
  shows "fst (runTest host net t h) = Some False
         \<and> last (console (snd (runTest host net t h))) = PARTIAL_PASS (name t)"
proof -
  note cc = checkContent_returns [OF assms(3)]
  from assms(4) obtain c where "c \<in> set (checks t)" "check_found host (data r) c = Inr False"
    by blast
  then have "\<exists>c \<in> set (checks t). \<not> found_or_false host (data r) c"
    by (auto simp: found_or_false_def intro!: bexI [of _ c])
  then show ?thesis
    by (simp add: runTest_200 [where net = net and h = h and r = r, OF assms(1,2)] cc)
qed

lemma verdict_raised:
  assumes "settle (net (length (sent h))) = Resolved r" and "status r = 200"
    and "\<exists>c \<in> set (checks t). \<exists>e. check_found host (data r) c = Inl e"
  shows "\<exists>e. checkContent host (data r) (checks t) = Inl e
           \<and> fst (runTest host net t h) = Some False
           \<and> last (console (snd (runTest host net t h))) = Caught e"
proof -
  from checkContent_raises [OF assms(3)]
  obtain e where e: "checkContent host (data r) (checks t) = Inl e" by blast
  then have "fst (runTest host net t h) = Some False
           \<and> last (console (snd (runTest host net t h))) = Caught e"
    by (simp add: runTest_200 [where net = net and h = h and r = r, OF assms(1,2)])
  with e show ?thesis by blast
qed

text \<open>
  C1, as the claim states it, fails at two inputs. At the first the response has status
  200, the first check evaluates false and the second check is an element check for
  \<^verbatim>\<open>(\<close>: the source of the class pattern is \<^verbatim>\<open><[^>]*class="[^"]*([^"]*"\<close>, \<^verbatim>\<open>new RegExp\<close>
  throws, \<^verbatim>\<open>runTest\<close> catches the error, and the verdict is "failed", not "partial
  pass". At the second the connection is lost after the response has started, a network
  error: the test has no verdict at all, not "failed".
\<close>

theorem verdict_counterexample:
  \<open>(settle (serves 200 [] (length (sent fresh))) = Resolved \<lparr>status = 200, data = [], headers = []\<rparr>
    \<and> check_found refusing_engine [] (mk_check ''content'' ''zzz'') = Inr False
    \<and> verdict refusing_engine (serves 200 [])
         (probe_case [mk_check ''content'' ''zzz'', mk_check ''element'' ''('']) fresh = Some Failed
    \<and> Some Failed \<noteq> Some Partial_pass)
   \<and> (cut_off (length (sent fresh)) = Unfinished
    \<and> verdict refusing_engine cut_off (probe_case []) fresh = None
    \<and> None \<noteq> Some Failed)\<close>
proof -
  have a: "settle (serves 200 [] (length (sent fresh)))
      = Resolved \<lparr>status = 200, data = [], headers = []\<rparr>"
    by (simp add: serves_def)
  have "\<exists>e. last (console (snd (runTest refusing_engine (serves 200 [])
        (probe_case [mk_check ''content'' ''zzz'', mk_check ''element'' ''('']) fresh))) = Caught e"
    using verdict_raised [where net = "serves 200 []" and h = fresh, OF a,
        of "probe_case [mk_check ''content'' ''zzz'', mk_check ''element'' ''('']" refusing_engine]
    by (auto simp: probe_case_def element_paren)
  then have 1: "verdict refusing_engine (serves 200 [])
        (probe_case [mk_check ''content'' ''zzz'', mk_check ''element'' ''('']) fresh = Some Failed"
    by (auto simp: verdict_def)
  have 2: "check_found refusing_engine [] (mk_check ''content'' ''zzz'') = Inr False"
    by (simp add: check_found_def mk_check_def)
  have p: "settle (cut_off (length (sent fresh))) = Pending" by (simp add: cut_off_def)
  have 3: "verdict refusing_engine cut_off (probe_case []) fresh = None"
    by (simp add: verdict_def runTest_pending [where net = cut_off, OF p])
  from a 1 2 3 show ?thesis by (simp add: cut_off_def)
qed

text \<open>
  C1, amended. For every test:
  \<^item> when the response ends with status 200 and every check evaluates true, the verdict
    is "passed": the test prints the line of a pass last and returns true;
  \<^item> when the response ends with status 200, every check evaluates to true or false and
    at least one evaluates false, the verdict is "partial pass": the test prints the
    line of a partial pass last and returns false;
  \<^item> when the response ends with status 200 and the evaluation of some check throws,
    the verdict is "failed": the test prints the error that \<^verbatim>\<open>checkContent\<close> threw last
    and returns false;
  \<^item> when the response ends with another status, the verdict is "failed": the test
    prints the line of the failed status, with the status, last and returns false;
  \<^item> when the request reports an error, or the socket is silent for 10000 ms or more
    (at once, or after shorter silences), the verdict is "failed": the test prints the
    message of the error, "Request timeout" for the timeout, last and returns false.
\<close>

theorem verdict_trichotomy:
  "(settle (net (length (sent h))) = Resolved r \<and> status r = 200
      \<and> (\<forall>c \<in> set (checks t). check_found host (data r) c = Inr True)
      \<longrightarrow> verdict host net t h = Some Passed \<and> fst (runTest host net t h) = Some True
          \<and> last (console (snd (runTest host net t h))) = PASSED (name t))
   \<and> (settle (net (length (sent h))) = Resolved r \<and> status r = 200
      \<and> (\<forall>c \<in> set (checks t). \<exists>b. check_found host (data r) c = Inr b)
      \<and> (\<exists>c \<in> set (checks t). check_found host (data r) c = Inr False)
      \<longrightarrow> verdict host net t h = Some Partial_pass \<and> fst (runTest host net t h) = Some False
          \<and> last (console (snd (runTest host net t h))) = PARTIAL_PASS (name t))
   \<and> (settle (net (length (sent h))) = Resolved r \<and> status r = 200
      \<and> (\<exists>c \<in> set (checks t). \<exists>e. check_found host (data r) c = Inl e)
      \<longrightarrow> verdict host net t h = Some Failed \<and> fst (runTest host net t h) = Some False
          \<and> (\<exists>e. checkContent host (data r) (checks t) = Inl e
                \<and> last (console (snd (runTest host net t h))) = Caught e))
   \<and> (settle (net (length (sent h))) = Resolved r \<and> status r \<noteq> 200
      \<longrightarrow> verdict host net t h = Some Failed \<and> fst (runTest host net t h) = Some False
          \<and> last (console (snd (runTest host net t h))) = Status_failed (status r))
   \<and> (net (length (sent h)) = Failure m
      \<longrightarrow> verdict host net t h = Some Failed \<and> fst (runTest host net t h) = Some False
          \<and> last (console (snd (runTest host net t h))) = Caught (Error m))
   \<and> (net (length (sent h)) = Idle \<or> settle (net (length (sent h))) = Rejected (Error ''Request timeout'')
      \<longrightarrow> verdict host net t h = Some Failed \<and> fst (runTest host net t h) = Some False
          \<and> last (console (snd (runTest host net t h))) = Caught (Error ''Request timeout''))
   \<and> (10000 \<le> ms \<longrightarrow> settle (After ms ev) = Rejected (Error ''Request timeout''))"
proof -
  have 1: "verdict host net t h = Some Passed \<and> fst (runTest host net t h) = Some True
          \<and> last (console (snd (runTest host net t h))) = PASSED (name t)"
    if "settle (net (length (sent h))) = Resolved r" "status r = 200"
      "\<forall>c \<in> set (checks t). check_found host (data r) c = Inr True"
    using verdict_passed [where net = net and h = h and r = r, OF that]
    by (simp add: verdict_def)
  have 2: "verdict host net t h = Some Partial_pass \<and> fst (runTest host net t h) = Some False
          \<and> last (console (snd (runTest host net t h))) = PARTIAL_PASS (name t)"
    if "settle (net (length (sent h))) = Resolved r" "status r = 200"
      "\<forall>c \<in> set (checks t). \<exists>b. check_found host (data r) c = Inr b"
      "\<exists>c \<in> set (checks t). check_found host (data r) c = Inr False"
    using verdict_partial [where net = net and h = h and r = r, OF that]
    by (simp add: verdict_def)
  have 3: "verdict host net t h = Some Failed \<and> fst (runTest host net t h) = Some False
          \<and> (\<exists>e. checkContent host (data r) (checks t) = Inl e
                \<and> last (console (snd (runTest host net t h))) = Caught e)"
    if "settle (net (length (sent h))) = Resolved r" "status r = 200"
      "\<exists>c \<in> set (checks t). \<exists>e. check_found host (data r) c = Inl e"
    using verdict_raised [where net = net and h = h and r = r, OF that]
    by (auto simp: verdict_def)
  have 4: "verdict host net t h = Some Failed \<and> fst (runTest host net t h) = Some False
          \<and> last (console (snd (runTest host net t h))) = Status_failed (status r)"
    if "settle (net (length (sent h))) = Resolved r" "status r \<noteq> 200"
    by (simp add: verdict_def runTest_not_200 [where net = net and h = h and r = r, OF that])
  have rej: "verdict host net t h = Some Failed \<and> fst (runTest host net t h) = Some False
          \<and> last (console (snd (runTest host net t h))) = Caught e"
    if "settle (net (length (sent h))) = Rejected e" for e
    by (simp add: verdict_def runTest_rejected [where net = net and h = h, OF that])
  have 5: "verdict host net t h = Some Failed \<and> fst (runTest host net t h) = Some False
          \<and> last (console (snd (runTest host net t h))) = Caught (Error m)"
    if "net (length (sent h)) = Failure m"
    using rej [of "Error m"] that by simp
  have 6: "verdict host net t h = Some Failed \<and> fst (runTest host net t h) = Some False
          \<and> last (console (snd (runTest host net t h))) = Caught (Error ''Request timeout'')"
    if "net (length (sent h)) = Idle
        \<or> settle (net (length (sent h))) = Rejected (Error ''Request timeout'')"
    using rej [of "Error ''Request timeout''"] that by auto
  have 7: "settle (After ms ev) = Rejected (Error ''Request timeout'')" if "10000 \<le> ms"
    using that by simp
  from 1 2 3 4 5 6 7 show ?thesis by blast
qed

theorem verdict_trichotomy_witness:
  \<open>verdict refusing_engine (serves 200 ''<h1>x</h1>'')
      (probe_case [mk_check ''content'' ''x'', mk_check ''element'' ''h1'']) fresh = Some Passed
   \<and> verdict refusing_engine (serves 200 ''<h1>x</h1>'')
      (probe_case [mk_check ''content'' ''zzz'', mk_check ''element'' ''h1'']) fresh = Some Partial_pass
   \<and> last (console (snd (runTest refusing_engine (serves 200 ''<h1>x</h1>'')
      (probe_case [mk_check ''element'' ''('']) fresh)))
      = Caught (SyntaxError ''<[^>]*class="[^"]*([^"]*"'')
   \<and> last (console (snd (runTest refusing_engine (serves 503 ''<h1>x</h1>'')
      (probe_case [mk_check ''content'' ''x'']) fresh))) = Status_failed 503
   \<and> last (console (snd (runTest refusing_engine unreachable
      (probe_case [mk_check ''content'' ''x'']) fresh)))
      = Caught (Error ''connect ECONNREFUSED 127.0.0.1:3000'')
   \<and> last (console (snd (runTest refusing_engine idle
      (probe_case [mk_check ''content'' ''x'']) fresh))) = Caught (Error ''Request timeout'')\<close>
proof -
  let ?r = "\<lparr>status = 200, data = ''<h1>x</h1>'', headers = []\<rparr>"
  let ?b = "\<lparr>status = 503, data = ''<h1>x</h1>'', headers = []\<rparr>"
  have a: "settle (serves 200 ''<h1>x</h1>'' (length (sent fresh))) = Resolved ?r"
    by (simp add: serves_def)
  have b: "settle (serves 503 ''<h1>x</h1>'' (length (sent fresh))) = Resolved ?b"
    by (simp add: serves_def)
  have c: "idle (length (sent fresh)) = Idle" by (simp add: idle_def)
  have d: "unreachable (length (sent fresh)) = Failure ''connect ECONNREFUSED 127.0.0.1:3000''"
    by (simp add: unreachable_def)
  have e1: "check_found refusing_engine ''<h1>x</h1>'' (mk_check ''element'' ''h1'') = Inr True"
    by code_simp
  have e2: "check_found refusing_engine ''<h1>x</h1>'' (mk_check ''content'' ''x'') = Inr True"
    by code_simp
  have e3: "check_found refusing_engine ''<h1>x</h1>'' (mk_check ''content'' ''zzz'') = Inr False"
    by code_simp
  have e4: \<open>checkContent refusing_engine ''<h1>x</h1>'' [mk_check ''element'' ''('']
      = Inl (SyntaxError ''<[^>]*class="[^"]*([^"]*"'')\<close>
    by (simp add: checkContent_def element_paren)
  from verdict_trichotomy [of "serves 200 ''<h1>x</h1>''" fresh ?r
      "probe_case [mk_check ''content'' ''x'', mk_check ''element'' ''h1'']" refusing_engine]
  have 1: "verdict refusing_engine (serves 200 ''<h1>x</h1>'')
      (probe_case [mk_check ''content'' ''x'', mk_check ''element'' ''h1'']) fresh = Some Passed"
    using a e1 e2 by (simp add: probe_case_def)
  from verdict_trichotomy [of "serves 200 ''<h1>x</h1>''" fresh ?r
      "probe_case [mk_check ''content'' ''zzz'', mk_check ''element'' ''h1'']" refusing_engine]
  have 2: "verdict refusing_engine (serves 200 ''<h1>x</h1>'')
      (probe_case [mk_check ''content'' ''zzz'', mk_check ''element'' ''h1'']) fresh = Some Partial_pass"
    using a e1 e3 by (auto simp: probe_case_def)
  from verdict_trichotomy [of "serves 200 ''<h1>x</h1>''" fresh ?r
      "probe_case [mk_check ''element'' ''('']" refusing_engine]
  have 3: \<open>last (console (snd (runTest refusing_engine (serves 200 ''<h1>x</h1>'')
      (probe_case [mk_check ''element'' ''('']) fresh)))
      = Caught (SyntaxError ''<[^>]*class="[^"]*([^"]*"'')\<close>
    using a e4 by (auto simp: probe_case_def element_paren)
  from verdict_trichotomy [of "serves 503 ''<h1>x</h1>''" fresh ?b
      "probe_case [mk_check ''content'' ''x'']" refusing_engine]
  have 4: "last (console (snd (runTest refusing_engine (serves 503 ''<h1>x</h1>'')
      (probe_case [mk_check ''content'' ''x'']) fresh))) = Status_failed 503"
    using b by simp
  from verdict_trichotomy [of unreachable fresh _ "probe_case [mk_check ''content'' ''x'']"
      refusing_engine "''connect ECONNREFUSED 127.0.0.1:3000''"]
  have 5: "last (console (snd (runTest refusing_engine unreachable
      (probe_case [mk_check ''content'' ''x'']) fresh)))
      = Caught (Error ''connect ECONNREFUSED 127.0.0.1:3000'')"
    using d by simp
  from verdict_trichotomy [of idle fresh _ "probe_case [mk_check ''content'' ''x'']"
      refusing_engine]
  have 6: "last (console (snd (runTest refusing_engine idle
      (probe_case [mk_check ''content'' ''x'']) fresh))) = Caught (Error ''Request timeout'')"
    using c by simp
  from 1 2 3 4 5 6 show ?thesis by simp
qed

section \<open>The outcomes of checkContent\<close>

lemma title_found_returns: "\<exists>b. title_found host html v = Inr b"
  unfolding title_found_iff by blast

lemma check_found_returns:
  assumes "check_type c = ''element'' \<longrightarrow>
     (\<exists>a b d. RegExp_i host (classSource (check_value c)) = Inr a
        \<and> RegExp_i host (idSource (check_value c)) = Inr b
        \<and> RegExp_i host (tagSource (check_value c)) = Inr d)"
  shows "\<exists>b. check_found host html c = Inr b"
proof (cases "check_type c = ''element''")
  case True
  with assms obtain a b d where "RegExp_i host (classSource (check_value c)) = Inr a"
    "RegExp_i host (idSource (check_value c)) = Inr b"
    "RegExp_i host (tagSource (check_value c)) = Inr d" by blast
  with True show ?thesis by (simp add: check_found_def element_found_def)
next
  case False
  then show ?thesis using title_found_returns [of host html "check_value c"]
    by (auto simp: check_found_def)
qed

lemma RegExp_i_plain:
  assumes "list_all plain v"
  shows "RegExp_i host (classSource v) = Inr (exec (class_items v))"
    and "RegExp_i host (idSource v) = Inr (exec (id_items v))"
    and "RegExp_i host (tagSource v) = Inr (exec (tag_items v))"
proof -
  from assms have p: "\<forall>c \<in> set v. plain c" by (simp add: list_all_iff)
  show "RegExp_i host (classSource v) = Inr (exec (class_items v))"
    by (simp add: RegExp_i_def parse_classSource [OF p])
  show "RegExp_i host (idSource v) = Inr (exec (id_items v))"
    by (simp add: RegExp_i_def parse_idSource [OF p])
  show "RegExp_i host (tagSource v) = Inr (exec (tag_items v))"
    by (simp add: RegExp_i_def parse_tagSource [OF p])
qed

text \<open>
  C10, as the claim states it, fails: for the single element check with the value
  \<^verbatim>\<open>(\<close>, \<^verbatim>\<open>checkContent\<close> throws the SyntaxError of \<^verbatim>\<open>new RegExp\<close> and returns no outcome.
\<close>

theorem checkContent_counterexample:
  \<open>checkContent refusing_engine [] [mk_check ''element'' ''('']
     = Inl (SyntaxError ''<[^>]*class="[^"]*([^"]*"'')\<close>
  by (simp add: checkContent_def element_paren)

text \<open>
  C10, amended. For every body and every list of checks (of any type, the four of the
  harness among them) in which the value of every element check gives three sources
  that \<^verbatim>\<open>new RegExp\<close> accepts, \<^verbatim>\<open>checkContent\<close> returns, with one outcome for each
  check, in the order of the checks, each holding its check. A value made only of
  characters without a meaning in a regular expression is such a value. And whenever
  \<^verbatim>\<open>checkContent\<close> returns, its outcomes hold the checks in their order.
\<close>

theorem checkContent_outcomes:
  "((\<forall>c \<in> set cs. check_type c = ''element'' \<longrightarrow>
        (\<exists>a b d. RegExp_i host (classSource (check_value c)) = Inr a
           \<and> RegExp_i host (idSource (check_value c)) = Inr b
           \<and> RegExp_i host (tagSource (check_value c)) = Inr d))
      \<longrightarrow> (\<exists>rs. checkContent host html cs = Inr rs \<and> length rs = length cs \<and> map check rs = cs))
   \<and> ((\<forall>c \<in> set cs. check_type c = ''element'' \<longrightarrow> list_all plain (check_value c))
      \<longrightarrow> (\<exists>rs. checkContent host html cs = Inr rs \<and> length rs = length cs \<and> map check rs = cs))
   \<and> (\<forall>rs. checkContent host html cs = Inr rs \<longrightarrow> length rs = length cs \<and> map check rs = cs)"
proof -
  have ret: "\<exists>rs. checkContent host html cs = Inr rs \<and> length rs = length cs \<and> map check rs = cs"
    if "\<forall>c \<in> set cs. \<exists>b. check_found host html c = Inr b"
    using checkContent_returns [OF that] by (simp add: comp_def)
  have 1: "\<exists>rs. checkContent host html cs = Inr rs \<and> length rs = length cs \<and> map check rs = cs"
    if "\<forall>c \<in> set cs. check_type c = ''element'' \<longrightarrow>
        (\<exists>a b d. RegExp_i host (classSource (check_value c)) = Inr a
           \<and> RegExp_i host (idSource (check_value c)) = Inr b
           \<and> RegExp_i host (tagSource (check_value c)) = Inr d)"
    using that check_found_returns by (intro ret) blast
  have 2: "\<exists>rs. checkContent host html cs = Inr rs \<and> length rs = length cs \<and> map check rs = cs"
    if "\<forall>c \<in> set cs. check_type c = ''element'' \<longrightarrow> list_all plain (check_value c)"
    using that RegExp_i_plain by (intro 1) blast
  have 3: "length rs = length cs \<and> map check rs = cs" if "checkContent host html cs = Inr rs" for rs
  proof -
    from checkContent_loop_checks [of host html cs "[]" rs] that
    have "map check rs = cs" by (simp add: checkContent_def)
    then show ?thesis by (metis length_map)
  qed
  from 1 2 3 show ?thesis by blast
qed

theorem checkContent_outcomes_witness:
  \<open>list_all plain ''h1''
   \<and> (\<exists>rs. checkContent refusing_engine ''<h1>x</h1>''
          [mk_check ''title'' ''x'', mk_check ''element'' ''h1'', mk_check ''json'' ''x'',
           mk_check ''content'' ''x''] = Inr rs
        \<and> length rs = 4
        \<and> map check rs =
          [mk_check ''title'' ''x'', mk_check ''element'' ''h1'', mk_check ''json'' ''x'',
           mk_check ''content'' ''x''])\<close>
proof -
  let ?cs = "[mk_check ''title'' ''x'', mk_check ''element'' ''h1'', mk_check ''json'' ''x'',
        mk_check ''content'' ''x'']"
  have p: "list_all plain ''h1''" by code_simp
  then have "\<forall>c \<in> set ?cs. check_type c = ''element'' \<longrightarrow> list_all plain (check_value c)"
    by (simp add: mk_check_def)
  with checkContent_outcomes [of ?cs refusing_engine "''<h1>x</h1>''"]
  have "\<exists>rs. checkContent refusing_engine ''<h1>x</h1>'' ?cs = Inr rs
      \<and> length rs = length ?cs \<and> map check rs = ?cs"
    by blast
  with p show ?thesis by (simp add: eval_nat_numeral)
qed

section \<open>The order of the three tests of an element check\<close>

text \<open>
  The three regular expressions of an element check, built in the order of the source,
  and a chain of \<^verbatim>\<open>||\<close> over the tests of a list of regular expressions, evaluated from
  left to right until one matches.
\<close>

definition element_regexps :: "engine \<Rightarrow> string \<Rightarrow> js_error + regexp list" where
  "element_regexps host v =
     (case RegExp_i host (classSource v) of
        Inl e \<Rightarrow> Inl e
      | Inr classRegex \<Rightarrow>
          (case RegExp_i host (idSource v) of
             Inl e \<Rightarrow> Inl e
           | Inr idRegex \<Rightarrow>
               (case RegExp_i host (tagSource v) of
                  Inl e \<Rightarrow> Inl e
                | Inr tagRegex \<Rightarrow> Inr [classRegex, idRegex, tagRegex])))"

fun test_in_order :: "regexp list \<Rightarrow> string \<Rightarrow> bool" where
  "test_in_order [] html = False"
| "test_in_order (rx # rxs) html = (if test rx html then True else test_in_order rxs html)"

lemma test_in_order_iff: "test_in_order rxs html \<longleftrightarrow> (\<exists>rx \<in> set rxs. test rx html)"
  by (induction rxs) auto

text \<open>
  C9. The result of an element check does not depend on the order in which its three
  tests are evaluated: when the three regular expressions are built, the check is found
  exactly when the chain of \<^verbatim>\<open>||\<close> over them, taken in any order, is true; and when
  building one of them throws, the check throws that error before any test runs.
\<close>

theorem element_order_independent:
  "(element_regexps host v = Inr rxs \<and> set rxs' = set rxs
      \<longrightarrow> element_found host html v = Inr (test_in_order rxs' html))
   \<and> (element_regexps host v = Inl e \<longrightarrow> element_found host html v = Inl e)"
proof (intro conjI impI)
  assume a: "element_regexps host v = Inr rxs \<and> set rxs' = set rxs"
  then obtain c i t where "RegExp_i host (classSource v) = Inr c" "RegExp_i host (idSource v) = Inr i"
    "RegExp_i host (tagSource v) = Inr t" "rxs = [c, i, t]"
    by (auto simp: element_regexps_def split: sum.splits)
  with a show "element_found host html v = Inr (test_in_order rxs' html)"
    by (simp add: element_found_def test_in_order_iff)
next
  assume "element_regexps host v = Inl e"
  then show "element_found host html v = Inl e"
    by (auto simp: element_regexps_def element_found_def split: sum.splits)
qed

theorem element_order_independent_witness:
  \<open>element_regexps refusing_engine ''h1''
     = Inr [exec (class_items ''h1''), exec (id_items ''h1''), exec (tag_items ''h1'')]
   \<and> set [exec (tag_items ''h1''), exec (class_items ''h1''), exec (id_items ''h1'')]
     = set [exec (class_items ''h1''), exec (id_items ''h1''), exec (tag_items ''h1'')]
   \<and> element_found refusing_engine ''<h1>x</h1>'' ''h1''
     = Inr (test_in_order [exec (tag_items ''h1''), exec (class_items ''h1''), exec (id_items ''h1'')]
         ''<h1>x</h1>'')\<close>
proof -
  have p: "list_all plain ''h1''" by code_simp
  have a: "element_regexps refusing_engine ''h1''
     = Inr [exec (class_items ''h1''), exec (id_items ''h1''), exec (tag_items ''h1'')]"
    by (simp add: element_regexps_def RegExp_i_plain [OF p])
  have b: "set [exec (tag_items ''h1''), exec (class_items ''h1''), exec (id_items ''h1'')]
     = set [exec (class_items ''h1''), exec (id_items ''h1''), exec (tag_items ''h1'')]"
    by auto
  from element_order_independent [of refusing_engine "''h1''" _ _ "''<h1>x</h1>''"] a b
  show ?thesis by blast
qed

section \<open>The title check\<close>

lemma prefix_iff_append: "prefix v s \<longleftrightarrow> (\<exists>ss. s = v @ ss)"
  by (auto simp: prefix_def)




section \<open>The json check\<close>

text \<open>
  The claim's reading of a parsed body: the top-level mapping has the named key. A value
  that is not an object has no top-level mapping.
\<close>

fun top_level_has :: "json \<Rightarrow> string \<Rightarrow> bool" where
  "top_level_has (JObject kvs) key = (code_units key \<in> set (map fst kvs))"
| "top_level_has v key = False"

lemma checkContent_loop_append:
  "checkContent_loop host html (cs1 @ cs2) acc =
     (case checkContent_loop host html cs1 acc of
        Inl e \<Rightarrow> Inl e
      | Inr rs \<Rightarrow> checkContent_loop host html cs2 rs)"
  by (induction cs1 arbitrary: acc) (auto split: sum.splits)

lemma checkContent_loop_acc:
  "checkContent_loop host html cs acc =
     (case checkContent_loop host html cs [] of
        Inl e \<Rightarrow> Inl e
      | Inr rs \<Rightarrow> Inr (acc @ rs))"
proof (induction cs arbitrary: acc)
  case Nil
  then show ?case by simp
next
  case (Cons c cs)
  show ?case
  proof (cases "check_found host html c")
    case (Inl e)
    then show ?thesis by simp
  next
    case (Inr f)
    show ?thesis
      using Cons.IH [of "acc @ [\<lparr>check = c, found = f\<rparr>]"] Cons.IH [of "[\<lparr>check = c, found = f\<rparr>]"] Inr
      by (simp split: sum.splits)
  qed
qed

lemma checkContent_loop_length:
  "checkContent_loop host html cs [] = Inr rs \<Longrightarrow> length rs = length cs"
  using checkContent_loop_checks [of host html cs "[]" rs] by (metis length_map list.simps(8) append_Nil)

lemma checkContent_insert:
  assumes "check_found host html j = Inr f"
  shows "checkContent host html (cs1 @ j # cs2) =
     (case checkContent host html (cs1 @ cs2) of
        Inl e \<Rightarrow> Inl e
      | Inr rs \<Rightarrow> Inr (take (length cs1) rs @ \<lparr>check = j, found = f\<rparr> # drop (length cs1) rs))"
proof (cases "checkContent_loop host html cs1 []")
  case (Inl e)
  then show ?thesis by (simp add: checkContent_def checkContent_loop_append)
next
  case (Inr r1)
  from checkContent_loop_length [OF Inr] have l: "length r1 = length cs1" .
  show ?thesis
  proof (cases "checkContent_loop host html cs2 []")
    case (Inl e)
    with Inr assms show ?thesis
      using checkContent_loop_acc [of host html cs2 "r1 @ [\<lparr>check = j, found = f\<rparr>]"]
        checkContent_loop_acc [of host html cs2 r1]
      by (simp add: checkContent_def checkContent_loop_append)
  next
    case r2: (Inr r2)
    with Inr assms l show ?thesis
      using checkContent_loop_acc [of host html cs2 "r1 @ [\<lparr>check = j, found = f\<rparr>]"]
        checkContent_loop_acc [of host html cs2 r1]
      by (simp add: checkContent_def checkContent_loop_append)
  qed
qed

lemma json_found_returns:
  "check_found host html (mk_check ''json'' key) = Inr (json_found html key)"
  by (simp add: check_found_def mk_check_def)

text \<open>
  C3, as the claim states it, fails on two bodies that parse. The array \<^verbatim>\<open>[16337]\<close> has
  no top-level mapping, and the check for \<^verbatim>\<open>length\<close> is found, since an array has that
  property of its own. The object
  \<^verbatim>\<open>{"hasOwnProperty": 1, "total_questions": 16337}\<close> has the key \<^verbatim>\<open>total_questions\<close>,
  and the check for it is not found: the member \<^verbatim>\<open>hasOwnProperty\<close> of the object hides
  the method that the check calls, the call throws a TypeError and the \<^verbatim>\<open>catch\<close> sets
  \<^verbatim>\<open>found\<close> to false.
\<close>

theorem json_check_counterexample:
  \<open>JSON_parse ''[16337]'' = Inr (JArray [JNumber ''16337''])
   \<and> \<not> top_level_has (JArray [JNumber ''16337'']) ''length''
   \<and> check_found refusing_engine ''[16337]'' (mk_check ''json'' ''length'') = Inr True
   \<and> JSON_parse ''{"hasOwnProperty": 1, "total_questions": 16337}''
       = Inr (JObject [(code_units ''hasOwnProperty'', JNumber ''1''),
                       (code_units ''total_questions'', JNumber ''16337'')])
   \<and> top_level_has (JObject [(code_units ''hasOwnProperty'', JNumber ''1''),
                       (code_units ''total_questions'', JNumber ''16337'')]) ''total_questions''
   \<and> check_found refusing_engine ''{"hasOwnProperty": 1, "total_questions": 16337}''
        (mk_check ''json'' ''total_questions'') = Inr False\<close>
proof -
  have 1: \<open>JSON_parse ''[16337]'' = Inr (JArray [JNumber ''16337''])\<close> by code_simp
  have 2: \<open>\<not> top_level_has (JArray [JNumber ''16337'']) ''length''\<close> by simp
  have \<open>json_found ''[16337]'' ''length''\<close> by code_simp
  then have 3: \<open>check_found refusing_engine ''[16337]'' (mk_check ''json'' ''length'') = Inr True\<close>
    by (simp only: json_found_returns)
  have 4: \<open>JSON_parse ''{"hasOwnProperty": 1, "total_questions": 16337}''
       = Inr (JObject [(code_units ''hasOwnProperty'', JNumber ''1''),
                       (code_units ''total_questions'', JNumber ''16337'')])\<close> by code_simp
  have 5: \<open>top_level_has (JObject [(code_units ''hasOwnProperty'', JNumber ''1''),
                       (code_units ''total_questions'', JNumber ''16337'')]) ''total_questions''\<close>
    by code_simp
  have \<open>\<not> json_found ''{"hasOwnProperty": 1, "total_questions": 16337}'' ''total_questions''\<close>
    by code_simp
  then have 6: \<open>check_found refusing_engine ''{"hasOwnProperty": 1, "total_questions": 16337}''
        (mk_check ''json'' ''total_questions'') = Inr False\<close>
    by (simp only: json_found_returns)
  from 1 2 3 4 5 6 show ?thesis by (intro conjI)
qed

text \<open>
  Claim C3, amended. For every body and every key the \<^verbatim>\<open>json\<close> check returns a value and
  throws nothing. If the body does not parse as JSON, the check is not found. If it parses
  to an object that has no member named \<^verbatim>\<open>hasOwnProperty\<close>, to a number, to a boolean or
  to \<^verbatim>\<open>null\<close>, the check is found exactly when the top-level mapping has the key (never,
  for the last three). If it parses to an array or to a string, the check is found exactly
  when the key is \<^verbatim>\<open>length\<close> or the decimal form of an index below its length. The key
  \<^verbatim>\<open>total_questions\<close> is found on the body \<^verbatim>\<open>{"total_questions": 16337, "results": []}\<close>,
  not found on \<^verbatim>\<open>{"results": []}\<close> and not found on \<^verbatim>\<open>not json\<close>. The other checks of
  the list are not affected: with a \<^verbatim>\<open>json\<close> check put anywhere into a list,
  \<^verbatim>\<open>checkContent\<close> throws what it throws without it and otherwise returns the outcomes
  it returns without it, the outcome of the \<^verbatim>\<open>json\<close> check put in at its place.
\<close>

theorem json_check:
  \<open>check_found host html (mk_check ''json'' key) = Inr (json_found html key)
   \<and> ((\<exists>e. JSON_parse html = Inl e) \<longrightarrow> \<not> json_found html key)
   \<and> (\<forall>v. JSON_parse html = Inr v
         \<and> (\<forall>kvs. v = JObject kvs \<longrightarrow> code_units ''hasOwnProperty'' \<notin> set (map fst kvs))
         \<and> (\<forall>vs. v \<noteq> JArray vs) \<and> (\<forall>ks. v \<noteq> JString ks)
        \<longrightarrow> json_found html key = top_level_has v key)
   \<and> (\<forall>vs. JSON_parse html = Inr (JArray vs)
        \<longrightarrow> json_found html key = (key = ''length'' \<or> key \<in> set (map decimal [0..<length vs])))
   \<and> (\<forall>ks. JSON_parse html = Inr (JString ks)
        \<longrightarrow> json_found html key = (key = ''length'' \<or> key \<in> set (map decimal [0..<length ks])))
   \<and> json_found ''{"total_questions": 16337, "results": []}'' ''total_questions''
   \<and> \<not> json_found ''{"results": []}'' ''total_questions''
   \<and> \<not> json_found ''not json'' ''total_questions''
   \<and> checkContent host html (cs1 @ mk_check ''json'' key # cs2) =
       (case checkContent host html (cs1 @ cs2) of
          Inl e \<Rightarrow> Inl e
        | Inr rs \<Rightarrow>
            Inr (take (length cs1) rs
                 @ \<lparr>check = mk_check ''json'' key, found = json_found html key\<rparr>
                 # drop (length cs1) rs))\<close>
proof -
  have 1: "check_found host html (mk_check ''json'' key) = Inr (json_found html key)"
    by (rule json_found_returns)
  have 2: "(\<exists>e. JSON_parse html = Inl e) \<longrightarrow> \<not> json_found html key"
    by (auto simp: json_found_def)
  have 3: "\<forall>v. JSON_parse html = Inr v
         \<and> (\<forall>kvs. v = JObject kvs \<longrightarrow> code_units ''hasOwnProperty'' \<notin> set (map fst kvs))
         \<and> (\<forall>vs. v \<noteq> JArray vs) \<and> (\<forall>ks. v \<noteq> JString ks)
        \<longrightarrow> json_found html key = top_level_has v key"
  proof (intro allI impI)
    fix v
    assume a: "JSON_parse html = Inr v
         \<and> (\<forall>kvs. v = JObject kvs \<longrightarrow> code_units ''hasOwnProperty'' \<notin> set (map fst kvs))
         \<and> (\<forall>vs. v \<noteq> JArray vs) \<and> (\<forall>ks. v \<noteq> JString ks)"
    then show "json_found html key = top_level_has v key"
      by (cases v) (simp_all add: json_found_def del: decimal.simps)
  qed
  have 4: "\<forall>vs. JSON_parse html = Inr (JArray vs)
        \<longrightarrow> json_found html key = (key = ''length'' \<or> key \<in> set (map decimal [0..<length vs]))"
    by (simp add: json_found_def indexed_def del: decimal.simps)
  have 5: "\<forall>ks. JSON_parse html = Inr (JString ks)
        \<longrightarrow> json_found html key = (key = ''length'' \<or> key \<in> set (map decimal [0..<length ks]))"
    by (simp add: json_found_def indexed_def del: decimal.simps)
  have 6: \<open>json_found ''{"total_questions": 16337, "results": []}'' ''total_questions''\<close>
    by code_simp
  have 7: \<open>\<not> json_found ''{"results": []}'' ''total_questions''\<close>
    by code_simp
  have 8: \<open>\<not> json_found ''not json'' ''total_questions''\<close>
    by code_simp
  have 9: "checkContent host html (cs1 @ mk_check ''json'' key # cs2) =
       (case checkContent host html (cs1 @ cs2) of
          Inl e \<Rightarrow> Inl e
        | Inr rs \<Rightarrow>
            Inr (take (length cs1) rs
                 @ \<lparr>check = mk_check ''json'' key, found = json_found html key\<rparr>
                 # drop (length cs1) rs))"
    by (rule checkContent_insert [OF json_found_returns])
  from 1 2 3 4 5 6 7 8 9 show ?thesis by (intro conjI)
qed

text \<open>
  On the body \<^verbatim>\<open>{"total_questions": 16337, "results": []}\<close>, which parses to an object
  without a member \<^verbatim>\<open>hasOwnProperty\<close>, the key \<^verbatim>\<open>successful\<close> is not found, and a
  \<^verbatim>\<open>json\<close> check between two other checks leaves their outcomes as they are. On the body
  \<^verbatim>\<open>not json\<close> the \<^verbatim>\<open>json\<close> check is not found and the check after it is evaluated.
\<close>

theorem json_check_witness:
  \<open>JSON_parse ''{"total_questions": 16337, "results": []}''
     = Inr (JObject [(code_units ''total_questions'', JNumber ''16337''),
                     (code_units ''results'', JArray [])])
   \<and> \<not> json_found ''{"total_questions": 16337, "results": []}'' ''successful''
   \<and> checkContent refusing_engine ''{"total_questions": 16337, "results": []}''
        [mk_check ''content'' ''16337'', mk_check ''json'' ''results'', mk_check ''title'' ''Future'']
       = Inr [\<lparr>check = mk_check ''content'' ''16337'', found = True\<rparr>,
              \<lparr>check = mk_check ''json'' ''results'', found = True\<rparr>,
              \<lparr>check = mk_check ''title'' ''Future'', found = False\<rparr>]
   \<and> JSON_parse ''not json'' = Inl (SyntaxError ''not json'')
   \<and> checkContent refusing_engine ''not json''
        [mk_check ''json'' ''results'', mk_check ''content'' ''json'']
       = Inr [\<lparr>check = mk_check ''json'' ''results'', found = False\<rparr>,
              \<lparr>check = mk_check ''content'' ''json'', found = True\<rparr>]\<close>
proof -
  let ?b = \<open>''{"total_questions": 16337, "results": []}''\<close>
  let ?kvs = "[(code_units ''total_questions'', JNumber ''16337''), (code_units ''results'', JArray [])]"
  have p: "JSON_parse ?b = Inr (JObject ?kvs)" by code_simp
  have h: "code_units ''hasOwnProperty'' \<notin> set (map fst ?kvs)" by code_simp
  have n: "\<not> top_level_has (JObject ?kvs) ''successful''" by code_simp
  have y: "top_level_has (JObject ?kvs) ''results''" by code_simp
  have q: "JSON_parse ''not json'' = Inl (SyntaxError ''not json'')" by code_simp
  note a = json_check [where host = refusing_engine and html = ?b and key = "''successful''"]
  note b = json_check [where host = refusing_engine and html = ?b and key = "''results''"
      and ?cs1.0 = "[mk_check ''content'' ''16337'']" and ?cs2.0 = "[mk_check ''title'' ''Future'']"]
  note c = json_check [where host = refusing_engine and html = "''not json''" and key = "''results''"
      and ?cs1.0 = "[]" and ?cs2.0 = "[mk_check ''content'' ''json'']"]
  from a p h have "json_found ?b ''successful'' = top_level_has (JObject ?kvs) ''successful''"
    by blast
  with n have 2: "\<not> json_found ?b ''successful''" by blast
  from b p h have "json_found ?b ''results'' = top_level_has (JObject ?kvs) ''results''"
    by blast
  with y have f: "json_found ?b ''results''" by blast
  have e: "checkContent refusing_engine ?b ([mk_check ''content'' ''16337''] @ [mk_check ''title'' ''Future''])
      = Inr [\<lparr>check = mk_check ''content'' ''16337'', found = True\<rparr>,
             \<lparr>check = mk_check ''title'' ''Future'', found = False\<rparr>]"
    by code_simp
  from b have "checkContent refusing_engine ?b
        ([mk_check ''content'' ''16337''] @ mk_check ''json'' ''results'' # [mk_check ''title'' ''Future''])
      = (case checkContent refusing_engine ?b
               ([mk_check ''content'' ''16337''] @ [mk_check ''title'' ''Future'']) of
          Inl e \<Rightarrow> Inl e
        | Inr rs \<Rightarrow>
            Inr (take (length [mk_check ''content'' ''16337'']) rs
                 @ \<lparr>check = mk_check ''json'' ''results'', found = json_found ?b ''results''\<rparr>
                 # drop (length [mk_check ''content'' ''16337'']) rs))"
    by blast
  with f have 3: "checkContent refusing_engine ?b
        [mk_check ''content'' ''16337'', mk_check ''json'' ''results'', mk_check ''title'' ''Future'']
       = Inr [\<lparr>check = mk_check ''content'' ''16337'', found = True\<rparr>,
              \<lparr>check = mk_check ''json'' ''results'', found = True\<rparr>,
              \<lparr>check = mk_check ''title'' ''Future'', found = False\<rparr>]"
    unfolding e by simp
  from c q have g: "\<not> json_found ''not json'' ''results''" by blast
  have e': "checkContent refusing_engine ''not json'' ([] @ [mk_check ''content'' ''json''])
      = Inr [\<lparr>check = mk_check ''content'' ''json'', found = True\<rparr>]"
    by code_simp
  from c have "checkContent refusing_engine ''not json''
        ([] @ mk_check ''json'' ''results'' # [mk_check ''content'' ''json''])
      = (case checkContent refusing_engine ''not json'' ([] @ [mk_check ''content'' ''json'']) of
          Inl e \<Rightarrow> Inl e
        | Inr rs \<Rightarrow>
            Inr (take (length ([] :: check list)) rs
                 @ \<lparr>check = mk_check ''json'' ''results'', found = json_found ''not json'' ''results''\<rparr>
                 # drop (length ([] :: check list)) rs))"
    by blast
  with g have 5: "checkContent refusing_engine ''not json''
        [mk_check ''json'' ''results'', mk_check ''content'' ''json'']
       = Inr [\<lparr>check = mk_check ''json'' ''results'', found = False\<rparr>,
              \<lparr>check = mk_check ''content'' ''json'', found = True\<rparr>]"
    unfolding e' by simp
  from p 2 3 q 5 show ?thesis by (intro conjI)
qed

section \<open>The element check\<close>

text \<open>
  The names of the tags of a body, as the claim reads a body: what follows a \<^verbatim>\<open><\<close> up to
  the first blank, \<^verbatim>\<open>/\<close> or \<^verbatim>\<open>>\<close>. A closing tag gives the empty name.
\<close>

definition name_char :: "char \<Rightarrow> bool" where
  "name_char c = (c \<notin> set [CHR '' '', CHR 0x09, CHR 0x0A, CHR 0x0C, CHR 0x0D, CHR ''/'', CHR ''>''])"

fun tag_names :: "string \<Rightarrow> string list" where
  "tag_names [] = []"
| "tag_names (c # s) =
     (if c = CHR ''<'' then takeWhile name_char s # tag_names s else tag_names s)"

text \<open>
  C2, as the claim states it, fails. The body \<^verbatim>\<open><h1x>\<close> has one tag, named \<^verbatim>\<open>h1x\<close>, and
  neither a \<^verbatim>\<open>class\<close> nor an \<^verbatim>\<open>id\<close> attribute, and the element check for \<^verbatim>\<open>h1\<close> is found:
  the third pattern asks for a tag whose name begins with the token. And for the token
  \<^verbatim>\<open>(\<close> the check evaluates to nothing, on any body: \<^verbatim>\<open>new RegExp\<close> throws a SyntaxError.
\<close>

theorem element_check_counterexample:
  \<open>check_found refusing_engine ''<h1x>'' (mk_check ''element'' ''h1'') = Inr True
   \<and> tag_names ''<h1x>'' = [''h1x'']
   \<and> \<not> ci_eq ''h1x'' ''h1''
   \<and> \<not> str_includes ''<h1x>'' ''class''
   \<and> \<not> str_includes ''<h1x>'' ''id''
   \<and> check_found refusing_engine ''<div class="(">'' (mk_check ''element'' ''('')
       = Inl (SyntaxError ''<[^>]*class="[^"]*([^"]*"'')\<close>
proof -
  have \<open>element_found refusing_engine ''<h1x>'' ''h1'' = Inr True\<close> by code_simp
  then have 1: \<open>check_found refusing_engine ''<h1x>'' (mk_check ''element'' ''h1'') = Inr True\<close>
    by (simp add: check_found_def mk_check_def)
  have 2: \<open>tag_names ''<h1x>'' = [''h1x'']\<close> by code_simp
  have 3: \<open>\<not> ci_eq ''h1x'' ''h1''\<close> by code_simp
  have 4: \<open>\<not> str_includes ''<h1x>'' ''class''\<close> by code_simp
  have 5: \<open>\<not> str_includes ''<h1x>'' ''id''\<close> by code_simp
  have 6: \<open>check_found refusing_engine ''<div class="(">'' (mk_check ''element'' ''('')
       = Inl (SyntaxError ''<[^>]*class="[^"]*([^"]*"'')\<close>
    by (rule element_paren)
  from 1 2 3 4 5 6 show ?thesis by (intro conjI)
qed

text \<open>
  Claim C2, amended. For every body and every token made only of characters without a
  meaning in a regular expression (none of \<^verbatim>\<open>[ ] ( ) { } * + ? . ^ $ |\<close> and the backslash), the element
  check returns a value, and it is found exactly when the body contains one of these,
  letters compared without regard to their case:
  \<^item> a \<^verbatim>\<open><\<close>, characters other than \<^verbatim>\<open>>\<close>, \<^verbatim>\<open>class="\<close>, characters other than the double
    quote, the token, characters other than the double quote, and a double quote;
  \<^item> a \<^verbatim>\<open><\<close>, characters other than \<^verbatim>\<open>>\<close>, \<^verbatim>\<open>id="\<close>, the token and a double quote;
  \<^item> a \<^verbatim>\<open><\<close>, the token at once after it, characters other than \<^verbatim>\<open>>\<close>, and a \<^verbatim>\<open>>\<close>:
    a tag whose name begins with the token.

  Any one of the three is sufficient.
\<close>

theorem element_check:
  assumes "list_all plain v"
  shows \<open>check_found host html (mk_check ''element'' v) = Inr
     ((\<exists>pre a k b t c post. html = pre @ ''<'' @ a @ k @ b @ t @ c @ ''"'' @ post
          \<and> CHR ''>'' \<notin> set a \<and> ci_eq k ''class="'' \<and> CHR 0x22 \<notin> set b \<and> ci_eq t v
          \<and> CHR 0x22 \<notin> set c)
      \<or> (\<exists>pre a k t post. html = pre @ ''<'' @ a @ k @ t @ ''"'' @ post
          \<and> CHR ''>'' \<notin> set a \<and> ci_eq k ''id="'' \<and> ci_eq t v)
      \<or> (\<exists>pre t a post. html = pre @ ''<'' @ t @ a @ ''>'' @ post
          \<and> ci_eq t v \<and> CHR ''>'' \<notin> set a))\<close>
proof -
  from assms have "\<forall>c \<in> set v. plain c" by (simp add: list_all_iff)
  from element_found_plain [OF this, of host html] show ?thesis
    by (simp only: check_found_def mk_check_def check.simps) simp
qed

text \<open>
  The three examples of the specification, for the token \<^verbatim>\<open>stats-grid\<close>: a \<^verbatim>\<open>div\<close> of
  that class, a \<^verbatim>\<open>section\<close> with that id, a tag of that name. Each is found, by the
  first, the second and the third form of the theorem. A \<^verbatim>\<open>div\<close> of the class
  \<^verbatim>\<open>stats\<close> is not found.
\<close>

theorem element_check_witness:
  \<open>list_all plain ''stats-grid''
   \<and> check_found refusing_engine ''<div class="stats-grid">'' (mk_check ''element'' ''stats-grid'')
       = Inr True
   \<and> check_found refusing_engine ''<section id="stats-grid">'' (mk_check ''element'' ''stats-grid'')
       = Inr True
   \<and> check_found refusing_engine ''<stats-grid>'' (mk_check ''element'' ''stats-grid'')
       = Inr True
   \<and> check_found refusing_engine ''<div class="stats">'' (mk_check ''element'' ''stats-grid'')
       = Inr False\<close>
proof -
  have \<open>element_found refusing_engine ''<div class="stats">'' ''stats-grid'' = Inr False\<close>
    by code_simp
  then have 4: \<open>check_found refusing_engine ''<div class="stats">'' (mk_check ''element'' ''stats-grid'')
       = Inr False\<close>
    by (simp add: check_found_def mk_check_def)
  have p: "list_all plain ''stats-grid''" by code_simp
  have t: "ci_eq ''stats-grid'' ''stats-grid''" by (simp add: ci_eq_def)
  have k1: \<open>ci_eq ''class="'' ''class="''\<close> by (simp add: ci_eq_def)
  have k2: \<open>ci_eq ''id="'' ''id="''\<close> by (simp add: ci_eq_def)
  have a1: "CHR ''>'' \<notin> set ''div ''" by simp
  have a2: "CHR ''>'' \<notin> set ''section ''" by simp
  have n: "CHR 0x22 \<notin> set []" "CHR ''>'' \<notin> set []" by simp_all
  have d1: \<open>''<div class="stats-grid">''
      = [] @ ''<'' @ ''div '' @ ''class="'' @ [] @ ''stats-grid'' @ [] @ ''"'' @ ''>''\<close> by simp
  have d2: \<open>''<section id="stats-grid">''
      = [] @ ''<'' @ ''section '' @ ''id="'' @ ''stats-grid'' @ ''"'' @ ''>''\<close> by simp
  have d3: \<open>''<stats-grid>'' = [] @ ''<'' @ ''stats-grid'' @ [] @ ''>'' @ []\<close> by simp
  have e1: \<open>\<exists>pre a k b t c post. ''<div class="stats-grid">'' = pre @ ''<'' @ a @ k @ b @ t @ c @ ''"'' @ post
          \<and> CHR ''>'' \<notin> set a \<and> ci_eq k ''class="'' \<and> CHR 0x22 \<notin> set b \<and> ci_eq t ''stats-grid''
          \<and> CHR 0x22 \<notin> set c\<close>
    by (intro exI conjI, rule d1, rule a1, rule k1, rule n(1), rule t, rule n(1))
  have e2: \<open>\<exists>pre a k t post. ''<section id="stats-grid">'' = pre @ ''<'' @ a @ k @ t @ ''"'' @ post
          \<and> CHR ''>'' \<notin> set a \<and> ci_eq k ''id="'' \<and> ci_eq t ''stats-grid''\<close>
    by (intro exI conjI, rule d2, rule a2, rule k2, rule t)
  have e3: \<open>\<exists>pre t a post. ''<stats-grid>'' = pre @ ''<'' @ t @ a @ ''>'' @ post
          \<and> ci_eq t ''stats-grid'' \<and> CHR ''>'' \<notin> set a\<close>
    by (intro exI conjI, rule d3, rule t, rule n(2))
  from element_check [OF p, of refusing_engine \<open>''<div class="stats-grid">''\<close>] e1
  have 1: \<open>check_found refusing_engine ''<div class="stats-grid">'' (mk_check ''element'' ''stats-grid'')
       = Inr True\<close> by (simp only: simp_thms)
  from element_check [OF p, of refusing_engine \<open>''<section id="stats-grid">''\<close>] e2
  have 2: \<open>check_found refusing_engine ''<section id="stats-grid">'' (mk_check ''element'' ''stats-grid'')
       = Inr True\<close> by (simp only: simp_thms)
  from element_check [OF p, of refusing_engine \<open>''<stats-grid>''\<close>] e3
  have 3: \<open>check_found refusing_engine ''<stats-grid>'' (mk_check ''element'' ''stats-grid'')
       = Inr True\<close> by (simp only: simp_thms)
  from p 1 2 3 4 show ?thesis by (intro conjI)
qed

section \<open>The success rate\<close>





























end
